theory Spec2Isabelle
  imports Main "HOL-Library.Word"
begin

section \<open>StrCalc: a shallow embedding of strcalc.c\<close>

text \<open>
  The program reads an expression over digit strings, \<open>.\<close> (concatenation) and \<open>^\<close>
  (repetition) from standard input, prints the syntax tree and then the value.

  Conventions of the embedding.
  \<^item> A \<open>FILE\<close> opened for reading is the finite list of the bytes not yet read;
    \<open>fgetc\<close> at the empty list is \<open>EOF\<close>.
  \<^item> A block of memory is the list of its bytes; the bytes of a fresh block are
    indeterminate in C and are the filler \<open>uninit_byte\<close> here. The source never
    tests what \<open>malloc\<close> returns. A request for a constant number of bytes, or for no
    more than the blocks the program already holds have together (the token buffers,
    \<open>buf_dup\<close>, \<open>buf_concat\<close>, the nodes), is taken to succeed. The request of
    \<open>buf_repeat\<close> is the product of a length and a count read from the input, which
    no amount of memory bounds: whether \<open>malloc\<close> grants it is part of the world
    (\<open>grants\<close>).
  \<^item> Sizes that count bytes held in memory (\<open>len\<close>, \<open>cap\<close>) are natural numbers.
    The two places where the source computes with numbers that are not such sizes,
    \<open>buf_asulong\<close> and the product in \<open>buf_repeat\<close>, carry the width of the machine
    type: \<open>unsigned long\<close> and \<open>size_t\<close> are 64 bits wide (LP64).
  \<^item> \<open>fatal(msg)\<close>, that is \<open>err(msg); exit(EXIT_FAILURE)\<close>, is the error value
    \<open>Fatal msg\<close>; the function \<open>process\<close> at the end turns it into the line on
    standard error and the exit status.
  \<^item> \<open>Undefined\<close> marks executions on which C gives the program no meaning (a read
    through the wrong member of a union, a write past the end of a block or through a
    null pointer).
  \<^item> \<open>OutOfFuel\<close> belongs to the embedding only: the mutually recursive parser is
    defined by recursion on a bound of the call depth.
\<close>

datatype error = Fatal string | Undefined | OutOfFuel

subsection \<open>Standard output and standard error; the allocator\<close>

text \<open>
  \<open>enum nodetype_t\<close> (lines 175-179). The tag of a node is kept as a number: a node
  whose tag was never written holds whatever the block held, which need not be one of
  the three enumerators.
\<close>

type_synonym nodetype_t = nat

abbreviation (input) EX_LIT :: nodetype_t where "EX_LIT \<equiv> 0"
abbreviation (input) EX_CONCAT :: nodetype_t where "EX_CONCAT \<equiv> 1"
abbreviation (input) EX_REPEAT :: nodetype_t where "EX_REPEAT \<equiv> 2"

text \<open>
  The part of the process state outside the tokenizer: the bytes written to standard
  output and to standard error, and the allocator as far as the program can observe it:
  \<open>node_mem w k\<close> is the value that the \<open>type\<close> field of the \<open>k\<close>-th
  \<open>malloc(sizeof(ast_node))\<close> block holds when \<open>malloc\<close> returns it, \<open>node_cnt\<close>
  counts the node blocks handed out so far; \<open>grants w n\<close> tells whether the
  \<open>malloc\<close> of \<open>buf_repeat\<close> returns a block, and not the null pointer, when
  \<open>n\<close> bytes are requested.
\<close>

record world =
  w_stdout :: "char list"
  w_stderr :: "char list"
  node_mem :: "nat \<Rightarrow> nodetype_t"
  node_cnt :: nat
  grants :: "nat \<Rightarrow> bool"

definition putchar :: "char \<Rightarrow> world \<Rightarrow> world" where
  "putchar c w = w\<lparr>w_stdout := w_stdout w @ [c]\<rparr>"

text \<open>\<open>printf\<close> and \<open>vprintf\<close>, applied to the text already formatted.\<close>

definition printf :: "string \<Rightarrow> world \<Rightarrow> world" where
  "printf s w = w\<lparr>w_stdout := w_stdout w @ s\<rparr>"

text \<open>\<open>err\<close> (lines 29-35): the formatted message and a newline on standard error.\<close>

definition err :: "string \<Rightarrow> world \<Rightarrow> world" where
  "err msg w = w\<lparr>w_stderr := w_stderr w @ msg @ [CHR 0x0A]\<rparr>"

subsection \<open>Memory blocks\<close>

definition uninit_byte :: char where
  "uninit_byte = CHR 0x00"

definition malloc :: "nat \<Rightarrow> char list" where
  "malloc n = replicate n uninit_byte"

text \<open>\<open>realloc p n\<close>: a block of \<open>n\<close> bytes that starts with the old contents.\<close>

definition realloc :: "char list \<Rightarrow> nat \<Rightarrow> char list" where
  "realloc p n = take n p @ replicate (n - length p) uninit_byte"

text \<open>\<open>memcpy(dst + off, src, n)\<close>, as the new contents of the block \<open>dst\<close>.\<close>

definition memcpy :: "char list \<Rightarrow> nat \<Rightarrow> char list \<Rightarrow> nat \<Rightarrow> char list" where
  "memcpy dst off src n = take off dst @ take n src @ drop (off + n) dst"

subsection \<open>Buffers (lines 13-16, 85-136)\<close>

record buffer_t =
  str :: "char list"
  len :: nat

text \<open>
  The bytes a buffer stands for: the first \<open>len\<close> bytes of its block. Every buffer the
  program builds has a block of at least \<open>len\<close> bytes (\<open>buf_wf\<close>).
\<close>

definition bytes :: "buffer_t \<Rightarrow> char list" where
  "bytes b = take (len b) (str b)"

definition buf_wf :: "buffer_t \<Rightarrow> bool" where
  "buf_wf b = (len b \<le> length (str b))"

definition buf_new :: "char list \<Rightarrow> nat \<Rightarrow> buffer_t" where
  "buf_new s sz = \<lparr>str = memcpy (malloc sz) 0 s sz, len = sz\<rparr>"

definition buf_dup :: "buffer_t \<Rightarrow> buffer_t" where
  "buf_dup buf = \<lparr>str = memcpy (malloc (len buf)) 0 (str buf) (len buf), len = len buf\<rparr>"

text \<open>\<open>buf_print\<close>: one \<open>putchar\<close> for each of the first \<open>len\<close> bytes, in order.\<close>

definition buf_print :: "buffer_t \<Rightarrow> world \<Rightarrow> world" where
  "buf_print buf w = foldl (\<lambda>w c. putchar c w) w (take (len buf) (str buf))"

definition buf_concat :: "buffer_t \<Rightarrow> buffer_t \<Rightarrow> buffer_t" where
  "buf_concat a b =
     \<lparr>str = memcpy (memcpy (malloc (len a + len b)) 0 (str a) (len a)) (len a) (str b) (len b),
      len = len a + len b\<rparr>"

text \<open>
  The loop of \<open>buf_repeat\<close> (line 120): iteration \<open>i\<close> copies \<open>a\<close> to offset
  \<open>i * a.len\<close> of the result block.
\<close>

function buf_repeat_loop :: "nat \<Rightarrow> nat \<Rightarrow> buffer_t \<Rightarrow> char list \<Rightarrow> char list" where
  "buf_repeat_loop i reps a res =
     (if i < reps then buf_repeat_loop (i + 1) reps a (memcpy res (i * len a) (str a) (len a))
      else res)"
  by pat_completeness auto
termination
  by (relation "measure (\<lambda>(i, reps, a, res). reps - i)") auto

declare buf_repeat_loop.simps [simp del]

text \<open>
  \<open>buf_repeat\<close> (lines 116-123). \<open>reps\<close> is a \<open>size_t\<close>. The block has
  \<open>a.len * reps\<close> bytes computed in \<open>size_t\<close>, while the loop writes \<open>reps\<close> copies
  whatever that product is: when the product does not fit 64 bits, the block is too small
  and the loop writes past its end. The result of \<open>malloc\<close> is not tested: when the
  request is refused (\<open>ok\<close> is false at its size), \<open>res.str\<close> is the null pointer,
  and the first iteration of the loop, if there is one, copies through it.
\<close>

definition buf_repeat :: "(nat \<Rightarrow> bool) \<Rightarrow> buffer_t \<Rightarrow> nat \<Rightarrow> error + buffer_t" where
  "buf_repeat ok a reps =
     (if len a * reps < 2 ^ 64 then
        if ok (len a * reps)
        then Inr \<lparr>str = buf_repeat_loop 0 reps a (malloc (len a * reps)), len = len a * reps\<rparr>
        else if reps = 0 then Inr \<lparr>str = [], len = len a * reps\<rparr>
        else Inl Undefined
      else Inl Undefined)"

text \<open>
  The value of a plain \<open>char\<close> as an \<open>int\<close>; \<open>char\<close> is signed on the platform
  assumed here. Digits are below 128, where signedness makes no difference.
\<close>

definition char_int :: "char \<Rightarrow> int" where
  "char_int c = (if (of_char c :: nat) < 128 then int (of_char c) else int (of_char c) - 256)"

text \<open>
  \<open>buf_asulong\<close> (lines 125-132): \<open>num = num * 10 + (buf.str[i] - '0')\<close> over the
  first \<open>len\<close> bytes. The subtraction is in \<open>int\<close>, the rest in \<open>unsigned long\<close>,
  whose width is the type parameter.
\<close>

definition buf_asulong :: "buffer_t \<Rightarrow> 'a::len word" where
  "buf_asulong buf =
     foldl (\<lambda>num c. num * 10 + of_int (char_int c - 48)) 0 (take (len buf) (str buf))"

text \<open>\<open>isdigit\<close> in the C locale.\<close>

definition isdigit :: "char \<Rightarrow> bool" where
  "isdigit c = (48 \<le> (of_char c :: nat) \<and> (of_char c :: nat) \<le> 57)"

text \<open>The number a digit string denotes in base 10.\<close>

definition decimal :: "char list \<Rightarrow> nat" where
  "decimal ds = foldl (\<lambda>n c. n * 10 + (of_char c - 48)) 0 ds"

subsection \<open>Tokens and the tokenizer (lines 7-27, 39-83, 138-173)\<close>

datatype toktype_t = TOK_STR | TOK_OP | TOK_EOF

text \<open>
  \<open>tok_t\<close>: the tag and the members of the union, each as a field of its own. The
  program reads \<open>op\<close> only under the tag \<open>TOK_OP\<close> and \<open>buf\<close> only under
  \<open>TOK_STR\<close>, each after a call of \<open>next_tok\<close> that wrote it.
\<close>

record tok_t =
  tok_type :: toktype_t
  tok_op :: char
  tok_buf :: buffer_t
  tok_cap :: nat

text \<open>
  The \<open>while\<close> loop of \<open>next_tok\<close> (lines 61-67), followed by the \<open>ungetc\<close> of the
  byte that ended it (\<open>ungetc(EOF)\<close> changes nothing).
\<close>

fun next_tok_while :: "tok_t \<Rightarrow> char list \<Rightarrow> tok_t \<times> char list" where
  "next_tok_while tok [] = (tok, [])"
| "next_tok_while tok (c # cs) =
     (if isdigit c then
        let b = tok_buf tok;
            b1 = b\<lparr>str := (str b)[len b := c], len := len b + 1\<rparr>;
            tok1 = tok\<lparr>tok_buf := b1\<rparr>;
            tok2 = (if len b1 \<ge> tok_cap tok1
                    then tok1\<lparr>tok_cap := 2 * tok_cap tok1,
                              tok_buf := b1\<lparr>str := realloc (str b1) (2 * tok_cap tok1)\<rparr>\<rparr>
                    else tok1)
        in next_tok_while tok2 cs
      else (tok, c # cs))"

text \<open>
  \<open>next_tok\<close>: the return value, the token written through \<open>tok\<close>, the rest of the
  input, and the world (standard error receives the diagnostics). Every path through
  the \<open>switch\<close> returns 0 or jumps back to \<open>loop\<close>; the statements after the
  \<open>switch\<close> (lines 81-82, \<open>return 1\<close>) have no path leading to them.
\<close>

fun next_tok :: "tok_t \<Rightarrow> char list \<Rightarrow> world \<Rightarrow> int \<times> tok_t \<times> char list \<times> world" where
  "next_tok tok [] w = (0, tok\<lparr>tok_type := TOK_EOF\<rparr>, [], w)"
| "next_tok tok (c # cs) w =
     (if c \<in> set ''().^'' then (0, tok\<lparr>tok_type := TOK_OP, tok_op := c\<rparr>, cs, w)
      else if c \<in> set ''0123456789'' then
        (case next_tok_while
                (tok\<lparr>tok_type := TOK_STR, tok_cap := 8,
                     tok_buf := \<lparr>str = (malloc 8)[0 := c], len = 1\<rparr>\<rparr>) cs
         of (tok', rest) \<Rightarrow> (0, tok', rest, w))
      else if c \<in> {CHR '' '', CHR 0x09, CHR 0x08, CHR 0x0B, CHR 0x0D, CHR 0x0A}
        then next_tok tok cs w
      else next_tok tok cs
             (err (''Ignoring unrecognized character '' @ [CHR 0x27, c, CHR 0x27] @ '' in input'') w))"

text \<open>
  \<open>tok_free\<close> (lines 138-140). The condition is the assignment \<open>tok->type = TOK_STR\<close>,
  whose value is 0: the tag is overwritten and \<open>buf_free\<close> is never called.
\<close>

definition tok_free :: "tok_t \<Rightarrow> tok_t" where
  "tok_free tok = tok\<lparr>tok_type := TOK_STR\<rparr>"

record tokenizer_t =
  tz_cur :: tok_t
  tz_next :: tok_t
  tz_in :: "char list"

definition tokenizer_init :: "tokenizer_t \<Rightarrow> char list \<Rightarrow> world \<Rightarrow> int \<times> tokenizer_t \<times> world" where
  "tokenizer_init tz inp w =
     (let tz1 = tz\<lparr>tz_in := inp\<rparr> in
      case next_tok (tz_cur tz1) (tz_in tz1) w of (rc, tok, rest, w1) \<Rightarrow>
        let tz2 = tz1\<lparr>tz_cur := tok, tz_in := rest\<rparr> in
        if rc \<noteq> 0 then (1, tz2, w1)
        else (case next_tok (tz_next tz2) (tz_in tz2) w1 of (rc, tok, rest, w2) \<Rightarrow>
          let tz3 = tz2\<lparr>tz_next := tok, tz_in := rest\<rparr> in
          if rc \<noteq> 0 then (1, tz3, w2) else (0, tz3, w2)))"

definition tokenizer_cleanup :: "tokenizer_t \<Rightarrow> tokenizer_t" where
  "tokenizer_cleanup tz = (let tz1 = tz\<lparr>tz_cur := tok_free (tz_cur tz)\<rparr>
                           in tz1\<lparr>tz_next := tok_free (tz_next tz1)\<rparr>)"

definition tokenizer_peek :: "tokenizer_t \<Rightarrow> tok_t" where
  "tokenizer_peek tz = tz_cur tz"

definition tokenizer_peeknext :: "tokenizer_t \<Rightarrow> tok_t" where
  "tokenizer_peeknext tz = tz_next tz"

definition tokenizer_consume :: "tokenizer_t \<Rightarrow> world \<Rightarrow> int \<times> tokenizer_t \<times> world" where
  "tokenizer_consume tz w =
     (let tz1 = tz\<lparr>tz_cur := tok_free (tz_cur tz)\<rparr>;
          tz2 = tz1\<lparr>tz_cur := tz_next tz1\<rparr>
      in case next_tok (tz_next tz2) (tz_in tz2) w of (rc, tok, rest, w1) \<Rightarrow>
        let tz3 = tz2\<lparr>tz_next := tok, tz_in := rest\<rparr> in
        if rc \<noteq> 0 then (1, tz3, w1) else (0, tz3, w1))"

subsection \<open>Syntax trees (lines 175-253)\<close>

text \<open>
  \<open>ast_node\<close>: the tag, and the member of the union that was stored. \<open>LitNode\<close> is a
  node whose union holds a buffer, \<open>BinNode\<close> one whose union holds the two children;
  the tag is a field beside them and is whatever was last written there.
\<close>

datatype ast_node =
    LitNode (node_type: nodetype_t) (node_buf: buffer_t)
  | BinNode (node_type: nodetype_t) (node_left: ast_node) (node_right: ast_node)

text \<open>
  \<open>ast_new_lit\<close> (lines 192-196) stores the copy of the buffer and returns; it does not
  assign \<open>res->type\<close>, so the tag is the one the block came with.
\<close>

definition ast_new_lit :: "buffer_t \<Rightarrow> world \<Rightarrow> ast_node \<times> world" where
  "ast_new_lit buf w =
     (LitNode (node_mem w (node_cnt w)) (buf_dup buf), w\<lparr>node_cnt := node_cnt w + 1\<rparr>)"

definition ast_new_binop :: "nodetype_t \<Rightarrow> ast_node \<Rightarrow> ast_node \<Rightarrow> world \<Rightarrow> ast_node \<times> world" where
  "ast_new_binop type left right w =
     (BinNode type left right, w\<lparr>node_cnt := node_cnt w + 1\<rparr>)"

text \<open>
  \<open>ast_free\<close> (lines 206-218): \<open>None\<close> when it returns. Under a tag that does not
  fit the stored member it frees what is not a pointer to a block.
\<close>

fun ast_free :: "ast_node \<Rightarrow> error option" where
  "ast_free (LitNode t b) =
     (if t = EX_LIT then None
      else if t = EX_CONCAT \<or> t = EX_REPEAT then Some Undefined
      else None)"
| "ast_free (BinNode t l r) =
     (if t = EX_LIT then Some Undefined
      else if t = EX_CONCAT \<or> t = EX_REPEAT then
        (case ast_free l of Some e \<Rightarrow> Some e | None \<Rightarrow> ast_free r)
      else None)"

text \<open>The loop of \<open>print_lev\<close> (line 223).\<close>

function print_lev_loop :: "int \<Rightarrow> int \<Rightarrow> world \<Rightarrow> world" where
  "print_lev_loop i lev w =
     (if i < lev
      then print_lev_loop (i + 1) lev
             (putchar (CHR '' '') (putchar (CHR '' '') (putchar (CHR '' '') (putchar (CHR ''|'') w))))
      else w)"
  by pat_completeness auto
termination
  by (relation "measure (\<lambda>(i, lev, w). nat (lev - i))") auto

declare print_lev_loop.simps [simp del]

definition print_lev :: "int \<Rightarrow> string \<Rightarrow> world \<Rightarrow> world" where
  "print_lev lev s w = printf s (print_lev_loop 0 lev w)"

fun ast_print_inner :: "ast_node \<Rightarrow> int \<Rightarrow> world \<Rightarrow> error + world" where
  "ast_print_inner (LitNode t b) lev w =
     (if t = EX_LIT then
        Inr (printf [CHR 0x0A] (buf_print b (print_lev lev ''String literal:'' w)))
      else if t = EX_CONCAT \<or> t = EX_REPEAT then Inl Undefined
      else Inr (print_lev lev (''<Unknown node>'' @ [CHR 0x0A]) w))"
| "ast_print_inner (BinNode t l r) lev w =
     (if t = EX_LIT then Inl Undefined
      else if t = EX_CONCAT \<or> t = EX_REPEAT then
        (let w1 = print_lev lev (''Binop: '' @ [if t = EX_CONCAT then CHR ''.'' else CHR ''^'', CHR 0x0A]) w;
             w2 = print_lev (lev + 1) (''Left:'' @ [CHR 0x0A]) w1
         in case ast_print_inner l (lev + 2) w2 of
              Inl e \<Rightarrow> Inl e
            | Inr w3 \<Rightarrow> ast_print_inner r (lev + 2) (print_lev (lev + 1) (''Right:'' @ [CHR 0x0A]) w3))
      else Inr (print_lev lev (''<Unknown node>'' @ [CHR 0x0A]) w))"

definition ast_print :: "ast_node \<Rightarrow> world \<Rightarrow> error + world" where
  "ast_print node w = ast_print_inner node 0 w"

subsection \<open>The parser (lines 255-316)\<close>

text \<open>
  Each parsing function returns the node or the error, the tokenizer and the world. The
  first argument bounds the depth of the calls still allowed; \<open>parse_fuel\<close> below gives
  a bound that is always enough. The \<open>while\<close> loop of \<open>parse_concat\<close> is
  \<open>parse_concat_loop\<close>, one unit of the bound for each iteration.
\<close>

type_synonym parse_result = "(error + ast_node) \<times> tokenizer_t \<times> world"

definition fatal :: "string \<Rightarrow> tokenizer_t \<Rightarrow> world \<Rightarrow> parse_result" where
  "fatal msg tz w = (Inl (Fatal msg), tz, w)"

fun parse_toplevel :: "nat \<Rightarrow> tokenizer_t \<Rightarrow> world \<Rightarrow> parse_result"
  and parse_repeat :: "nat \<Rightarrow> tokenizer_t \<Rightarrow> world \<Rightarrow> parse_result"
  and parse_concat_loop :: "nat \<Rightarrow> ast_node \<Rightarrow> tokenizer_t \<Rightarrow> world \<Rightarrow> parse_result"
  and parse_concat :: "nat \<Rightarrow> tokenizer_t \<Rightarrow> world \<Rightarrow> parse_result"
  and parse :: "nat \<Rightarrow> tokenizer_t \<Rightarrow> world \<Rightarrow> parse_result"
where
  "parse_toplevel 0 tz w = (Inl OutOfFuel, tz, w)"
| "parse_toplevel (Suc n) tz w =
     (let cur = tokenizer_peek tz in
      case tok_type cur of
        TOK_STR \<Rightarrow>
          (case tokenizer_consume tz w of (rc, tz1, w1) \<Rightarrow>
             if rc \<noteq> 0 then fatal ''Syntax error after literal'' tz1 w1
             else (case ast_new_lit (tok_buf cur) w1 of (node, w2) \<Rightarrow> (Inr node, tz1, w2)))
      | TOK_OP \<Rightarrow>
          if tok_op cur = CHR ''('' then
            (case tokenizer_consume tz w of (rc, tz1, w1) \<Rightarrow>
               if rc \<noteq> 0 then fatal ''Syntax error after open paren'' tz1 w1
               else (case parse n tz1 w1 of
                   (Inl e, tz2, w2) \<Rightarrow> (Inl e, tz2, w2)
                 | (Inr node, tz2, w2) \<Rightarrow>
                     let cur = tokenizer_peek tz2 in
                     if tok_type cur \<noteq> TOK_OP \<or> tok_op cur \<noteq> CHR '')''
                     then fatal ''Syntax error: expected close paren'' tz2 w2
                     else (case tokenizer_consume tz2 w2 of (rc, tz3, w3) \<Rightarrow>
                       if rc \<noteq> 0 then fatal ''Syntax error after close paren'' tz3 w3
                       else (Inr node, tz3, w3))))
          else fatal ''Syntax error: expected toplevel expression'' tz w
      | TOK_EOF \<Rightarrow> fatal ''Syntax error: expected toplevel expression'' tz w)"
| "parse_repeat 0 tz w = (Inl OutOfFuel, tz, w)"
| "parse_repeat (Suc n) tz w =
     (case parse_toplevel n tz w of
        (Inl e, tz1, w1) \<Rightarrow> (Inl e, tz1, w1)
      | (Inr left, tz1, w1) \<Rightarrow>
          let cur = tokenizer_peek tz1 in
          if tok_type cur = TOK_OP \<and> tok_op cur = CHR ''^'' then
            (case tokenizer_consume tz1 w1 of (rc, tz2, w2) \<Rightarrow>
               if rc \<noteq> 0 then fatal ''Syntax error after repeat operator'' tz2 w2
               else
                 (let next = tokenizer_peeknext tz2 in
                  case (if tok_type next = TOK_OP \<and> tok_op next = CHR ''^''
                        then parse_repeat n tz2 w2 else parse_toplevel n tz2 w2) of
                    (Inl e, tz3, w3) \<Rightarrow> (Inl e, tz3, w3)
                  | (Inr right, tz3, w3) \<Rightarrow>
                      (case ast_new_binop EX_REPEAT left right w3 of (node, w4) \<Rightarrow>
                         (Inr node, tz3, w4))))
          else (Inr left, tz1, w1))"
| "parse_concat_loop 0 left tz w = (Inl OutOfFuel, tz, w)"
| "parse_concat_loop (Suc n) left tz w =
     (let cur = tokenizer_peek tz in
      if tok_type cur = TOK_OP \<and> tok_op cur = CHR ''.'' then
        (case tokenizer_consume tz w of (rc, tz1, w1) \<Rightarrow>
           if rc \<noteq> 0 then fatal ''Syntax error after concat operator'' tz1 w1
           else (case parse_repeat n tz1 w1 of
               (Inl e, tz2, w2) \<Rightarrow> (Inl e, tz2, w2)
             | (Inr right, tz2, w2) \<Rightarrow>
                 (case ast_new_binop EX_CONCAT left right w2 of (left', w3) \<Rightarrow>
                    parse_concat_loop n left' tz2 w3)))
      else (Inr left, tz, w))"
| "parse_concat 0 tz w = (Inl OutOfFuel, tz, w)"
| "parse_concat (Suc n) tz w =
     (case parse_repeat n tz w of
        (Inl e, tz1, w1) \<Rightarrow> (Inl e, tz1, w1)
      | (Inr left, tz1, w1) \<Rightarrow> parse_concat_loop n left tz1 w1)"
| "parse 0 tz w = (Inl OutOfFuel, tz, w)"
| "parse (Suc n) tz w = parse_concat n tz w"

subsection \<open>The evaluator (lines 318-340)\<close>

text \<open>
  \<open>buf_asulong\<close> returns an \<open>unsigned long\<close>, which \<open>buf_repeat\<close> receives as a
  \<open>size_t\<close> of the same width. The two \<open>buf_free\<close> calls release blocks the result
  does not share. The first argument is the allocator's answer to \<open>buf_repeat\<close>.
\<close>

fun eval :: "(nat \<Rightarrow> bool) \<Rightarrow> ast_node \<Rightarrow> error + buffer_t" where
  "eval ok (LitNode t b) =
     (if t = EX_LIT then Inr (buf_dup b)
      else if t = EX_CONCAT \<or> t = EX_REPEAT then Inl Undefined
      else Inl (Fatal ''Attempt to evaluate unknown node''))"
| "eval ok (BinNode t left right) =
     (if t = EX_LIT then Inl Undefined
      else if t = EX_CONCAT \<or> t = EX_REPEAT then
        (case eval ok left of
           Inl e \<Rightarrow> Inl e
         | Inr l \<Rightarrow>
             (case eval ok right of
                Inl e \<Rightarrow> Inl e
              | Inr r \<Rightarrow>
                  if t = EX_CONCAT then Inr (buf_concat l r)
                  else buf_repeat ok l (unat (buf_asulong r :: 64 word))))
      else Inl (Fatal ''Attempt to evaluate unknown node''))"

subsection \<open>The driver (lines 342-354)\<close>

text \<open>
  A bound on the depth of the parser's calls that suffices for the input \<open>inp\<close>
  (lemma \<open>parse_fuel_enough\<close>); a larger one gives the same result (lemma
  \<open>parse_fuel_irrelevant\<close>).
\<close>

definition parse_fuel :: "char list \<Rightarrow> nat" where
  "parse_fuel inp = 15 * length inp + 20"

text \<open>
  \<open>main\<close>. \<open>tz0\<close> is the content of the local \<open>tz\<close> before \<open>tokenizer_init\<close> writes
  it, \<open>inp\<close> the bytes on standard input. The result is the value returned, or the
  error that ended the run, with the world at that point.
\<close>

definition main :: "tokenizer_t \<Rightarrow> char list \<Rightarrow> world \<Rightarrow> (error + int) \<times> world" where
  "main tz0 inp w =
     (case tokenizer_init tz0 inp w of (rc, tz, w1) \<Rightarrow>
        if rc \<noteq> 0 then (Inl (Fatal ''Failed to initialize tokenizer''), w1)
        else (case parse (parse_fuel inp) tz w1 of
            (Inl e, tz1, w2) \<Rightarrow> (Inl e, w2)
          | (Inr p, tz1, w2) \<Rightarrow>
              (case ast_print p w2 of
                 Inl e \<Rightarrow> (Inl e, w2)
               | Inr w3 \<Rightarrow>
                   (case eval (grants w3) p of
                      Inl e \<Rightarrow> (Inl e, w3)
                    | Inr buf \<Rightarrow>
                        let w4 = printf [CHR 0x0A] (buf_print buf w3) in
                        (case ast_free p of
                           Some e \<Rightarrow> (Inl e, w4)
                         | None \<Rightarrow> let tz2 = tokenizer_cleanup tz1 in (Inr 0, w4))))))"

text \<open>
  The run of the process as its environment sees it: the exit status, standard output
  and standard error. \<open>EXIT_FAILURE\<close> is 1. A run without meaning in C, and a parse
  that exceeds the depth bound, have no observable outcome (\<open>None\<close>).
\<close>

definition process :: "tokenizer_t \<Rightarrow> char list \<Rightarrow> world \<Rightarrow> (int \<times> char list \<times> char list) option" where
  "process tz0 inp w =
     (case main tz0 inp w of
        (Inr status, w') \<Rightarrow> Some (status, w_stdout w', w_stderr w')
      | (Inl (Fatal msg), w') \<Rightarrow> Some (1, w_stdout w', w_stderr (err msg w'))
      | (Inl Undefined, w') \<Rightarrow> None
      | (Inl OutOfFuel, w') \<Rightarrow> None)"

subsection \<open>Notions used in the statements\<close>

text \<open>
  A tree is well formed when the buffer of every literal node is; these are the trees
  the parser builds (lemma \<open>parse_wf\<close>).
\<close>

fun ast_wf :: "ast_node \<Rightarrow> bool" where
  "ast_wf (LitNode t b) = buf_wf b"
| "ast_wf (BinNode t l r) = (ast_wf l \<and> ast_wf r)"

text \<open>The bytes of the value of a tree, or the error.\<close>

definition eval_bytes :: "(nat \<Rightarrow> bool) \<Rightarrow> ast_node \<Rightarrow> error + char list" where
  "eval_bytes ok node = map_sum id bytes (eval ok node)"

text \<open>
  Two allocators' answers to \<open>buf_repeat\<close>: every request granted, and the requests
  below a limit granted.
\<close>

definition grant_all :: "nat \<Rightarrow> bool" where
  "grant_all n = True"

definition grant_below :: "nat \<Rightarrow> nat \<Rightarrow> bool" where
  "grant_below lim n = (n < lim)"

text \<open>
  The world when the process starts, with an allocator whose node blocks all come with
  the tag \<open>t\<close> and that grants every request of \<open>buf_repeat\<close>:
  \<open>fresh_world EX_LIT\<close> is an allocator handing out zeroed memory.
\<close>

definition fresh_world :: "nodetype_t \<Rightarrow> world" where
  "fresh_world t = \<lparr>w_stdout = [], w_stderr = [], node_mem = (\<lambda>k. t), node_cnt = 0,
                     grants = grant_all\<rparr>"

text \<open>Some content for the local \<open>tz\<close> of \<open>main\<close> before it is initialised.\<close>

definition tok_init :: tok_t where
  "tok_init = \<lparr>tok_type = TOK_EOF, tok_op = CHR 0x00, tok_buf = \<lparr>str = [], len = 0\<rparr>, tok_cap = 0\<rparr>"

definition tz_init :: tokenizer_t where
  "tz_init = \<lparr>tz_cur = tok_init, tz_next = tok_init, tz_in = []\<rparr>"

text \<open>
  The size of what the tokenizer still holds: it decreases with every
  \<open>tokenizer_consume\<close> at a current token other than the end of input.
\<close>

definition tz_size :: "tokenizer_t \<Rightarrow> nat" where
  "tz_size tz = 3 * length (tz_in tz)
     + (if tok_type (tz_next tz) = TOK_EOF then 0 else 2)
     + (if tok_type (tz_cur tz) = TOK_EOF then 0 else 1)"

text \<open>The tokenizer holds well-formed buffers in its string tokens.\<close>

definition tok_wf :: "tok_t \<Rightarrow> bool" where
  "tok_wf tok = (tok_type tok \<noteq> TOK_STR \<or> buf_wf (tok_buf tok))"

definition tz_wf :: "tokenizer_t \<Rightarrow> bool" where
  "tz_wf tz = (tok_wf (tz_cur tz) \<and> tok_wf (tz_next tz))"

text \<open>
  The messages of the \<open>fatal\<close> calls that guard \<open>tokenizer_consume\<close> in the parser
  (lines 262, 268, 272, 287, 305).
\<close>

definition consume_failures :: "string list" where
  "consume_failures =
     [''Syntax error after literal'', ''Syntax error after open paren'',
      ''Syntax error after close paren'', ''Syntax error after repeat operator'',
      ''Syntax error after concat operator'']"

text \<open>
  The messages of the two \<open>fatal\<close> calls of the parser that report a violation of the
  grammar (lines 271, 277), and the results a parsing function can have: a node, one of
  these two errors, or the depth bound exceeded.
\<close>

definition grammar_errors :: "string list" where
  "grammar_errors =
     [''Syntax error: expected close paren'', ''Syntax error: expected toplevel expression'']"

definition parse_outcomes :: "(error + ast_node) set" where
  "parse_outcomes = range Inr \<union> Inl ` insert OutOfFuel (Fatal ` set grammar_errors)"

text \<open>
  Results of a parsing function that show progress: the depth bound was not exceeded,
  and a node comes with a strictly smaller tokenizer (\<open>progress\<close>) or with one that is
  not larger (\<open>progress_eq\<close>, for the loop of \<open>parse_concat\<close>).
\<close>

definition progress :: "tokenizer_t \<Rightarrow> parse_result \<Rightarrow> bool" where
  "progress tz r = (case r of (Inl e, tz', w') \<Rightarrow> e \<noteq> OutOfFuel
                            | (Inr p, tz', w') \<Rightarrow> tz_size tz' < tz_size tz)"

definition progress_eq :: "tokenizer_t \<Rightarrow> parse_result \<Rightarrow> bool" where
  "progress_eq tz r = (case r of (Inl e, tz', w') \<Rightarrow> e \<noteq> OutOfFuel
                               | (Inr p, tz', w') \<Rightarrow> tz_size tz' \<le> tz_size tz)"

text \<open>A result whose node and tokenizer are well formed.\<close>

definition wf_result :: "parse_result \<Rightarrow> bool" where
  "wf_result r = (case r of (Inl e, tz', w') \<Rightarrow> True
                          | (Inr p, tz', w') \<Rightarrow> ast_wf p \<and> tz_wf tz')"

subsection \<open>The grammar of the specification\<close>

text \<open>
  The claims about violations of the grammar speak of the input as a sequence of
  tokens and of the grammar of the specification (section 4.5):

  \<^verbatim>\<open>expr := concat    concat := repeat ( '.' repeat )*    repeat := primary [ '^' repeat-rhs ]\<close>

  \<^verbatim>\<open>repeat-rhs := repeat | primary    primary := STRING | '(' expr ')'\<close>

  The definitions of this subsection, named \<open>spec_\<close>, follow the specification and not
  the source; the theorems compare the parser of the source with them.

  A token as the specification has it (section 3), and the token a \<open>tok_t\<close> of the
  source stands for.
\<close>

datatype token = StringToken "char list" | OpToken char | EndToken



definition token_at :: "token list \<Rightarrow> nat \<Rightarrow> token" where
  "token_at ts k = (if k < length ts then ts ! k else EndToken)"








text \<open>
  \<open>quiet w w'\<close>: from \<open>w\<close> to \<open>w'\<close> nothing was written to standard output, and
  standard error was only added to.
\<close>

definition quiet :: "world \<Rightarrow> world \<Rightarrow> bool" where
  "quiet w w' = (w_stdout w' = w_stdout w \<and> (\<exists>d. w_stderr w' = w_stderr w @ d))"





section \<open>Properties\<close>

subsection \<open>Buffers\<close>

lemma length_malloc [simp]: "length (malloc n) = n"
  by (simp add: malloc_def)

lemma memcpy_fresh: "n \<le> length s \<Longrightarrow> memcpy (malloc n) 0 s n = take n s"
  by (simp add: memcpy_def malloc_def)

lemma buf_dup_bytes: "buf_wf b \<Longrightarrow> str (buf_dup b) = bytes b \<and> len (buf_dup b) = len b"
  by (simp add: buf_dup_def buf_wf_def bytes_def memcpy_fresh)

lemma buf_dup_wf: "buf_wf b \<Longrightarrow> buf_wf (buf_dup b) \<and> bytes (buf_dup b) = bytes b"
  using buf_dup_bytes [of b] by (simp add: buf_wf_def bytes_def)

lemma buf_concat_str:
  assumes "buf_wf a" "buf_wf b"
  shows "str (buf_concat a b) = bytes a @ bytes b"
  using assms by (simp add: buf_concat_def memcpy_def malloc_def bytes_def buf_wf_def)

lemma buf_concat_bytes:
  assumes "buf_wf a" "buf_wf b"
  shows "bytes (buf_concat a b) = bytes a @ bytes b" "buf_wf (buf_concat a b)"
proof -
  have l: "len (buf_concat a b) = len a + len b" by (simp add: buf_concat_def)
  have n: "length (bytes a @ bytes b) = len a + len b"
    using assms by (simp add: bytes_def buf_wf_def)
  show "bytes (buf_concat a b) = bytes a @ bytes b"
    using n by (simp add: bytes_def [of "buf_concat a b"] l buf_concat_str [OF assms])
  show "buf_wf (buf_concat a b)"
    using n by (simp add: buf_wf_def l buf_concat_str [OF assms])
qed

lemma concat_replicate_length: "length (concat (replicate n xs)) = n * length xs"
  by (simp add: length_concat sum_list_replicate)

lemma concat_replicate_Suc: "concat (replicate (Suc i) xs) = concat (replicate i xs) @ xs"
  by (induction i) simp_all

lemma buf_repeat_loop_inv:
  assumes "buf_wf a" "i \<le> reps"
    and "res = concat (replicate i (bytes a)) @ replicate ((reps - i) * len a) uninit_byte"
  shows "buf_repeat_loop i reps a res = concat (replicate reps (bytes a))"
  using assms
proof (induction i reps a res rule: buf_repeat_loop.induct)
  case (1 i reps a res)
  have la: "length (bytes a) = len a" using "1.prems"(1) by (simp add: bytes_def buf_wf_def)
  have lc: "length (concat (replicate i (bytes a))) = i * len a"
    by (simp add: concat_replicate_length la)
  show ?case
  proof (cases "i < reps")
    case True
    have t: "take (i * len a) res = concat (replicate i (bytes a))"
      by (simp add: "1.prems"(3) lc)
    have d: "drop (i * len a + len a) res = replicate ((reps - (i + 1)) * len a) uninit_byte"
      by (simp add: "1.prems"(3) lc diff_mult_distrib)
    have m: "memcpy res (i * len a) (str a) (len a)
             = concat (replicate (i + 1) (bytes a)) @ replicate ((reps - (i + 1)) * len a) uninit_byte"
      unfolding memcpy_def t d by (simp only: Suc_eq_plus1 [symmetric] concat_replicate_Suc bytes_def append_assoc)
    have "buf_repeat_loop (i + 1) reps a (memcpy res (i * len a) (str a) (len a))
          = concat (replicate reps (bytes a))"
      using True by (intro "1.IH" [OF True "1.prems"(1) _ m]) simp
    then show ?thesis
      using True by (subst buf_repeat_loop.simps) simp
  next
    case False
    with "1.prems" have "i = reps" by simp
    then show ?thesis using "1.prems"(3) by (subst buf_repeat_loop.simps) simp
  qed
qed

lemma buf_repeat_ok:
  assumes "buf_wf a" "len a * n < 2 ^ 64" "ok (len a * n)"
  shows "buf_repeat ok a n = Inr \<lparr>str = concat (replicate n (bytes a)), len = len a * n\<rparr>"
proof -
  have "buf_repeat_loop 0 n a (malloc (len a * n)) = concat (replicate n (bytes a))"
    by (rule buf_repeat_loop_inv [OF assms(1)]) (simp_all add: malloc_def mult.commute)
  then show ?thesis using assms(2,3) by (simp add: buf_repeat_def)
qed

lemma buf_repeat_zero: "buf_repeat ok a 0 = Inr \<lparr>str = [], len = 0\<rparr>"
  by (simp add: buf_repeat_def buf_repeat_loop.simps malloc_def)

lemma buf_repeat_bytes:
  assumes "buf_wf a" "buf_repeat ok a n = Inr r"
  shows "bytes r = concat (replicate n (bytes a))" "len r = len a * n" "buf_wf r"
proof -
  have la: "length (bytes a) = len a" using assms(1) by (simp add: bytes_def buf_wf_def)
  have r: "r = \<lparr>str = concat (replicate n (bytes a)), len = len a * n\<rparr>"
  proof (cases "ok (len a * n)")
    case True
    have lt: "len a * n < 2 ^ 64" using assms(2) by (simp add: buf_repeat_def split: if_splits)
    from buf_repeat_ok [of a n ok, OF assms(1) lt True] assms(2) show ?thesis by simp
  next
    case False
    with assms(2) have "n = 0" by (simp add: buf_repeat_def split: if_splits)
    with assms(2) show ?thesis by (simp add: buf_repeat_zero)
  qed
  show "bytes r = concat (replicate n (bytes a))"
    by (simp add: r bytes_def concat_replicate_length la mult.commute)
  show "len r = len a * n" by (simp add: r)
  show "buf_wf r" by (simp add: r buf_wf_def concat_replicate_length la mult.commute)
qed

subsection \<open>Reading a buffer as a number\<close>

lemma digit_val: "isdigit c \<Longrightarrow> (of_int (char_int c - 48) :: 'a::len word) = of_nat (of_char c - 48)"
  by (auto simp: isdigit_def char_int_def)

lemma asulong_fold:
  "list_all isdigit ds \<Longrightarrow>
   foldl (\<lambda>num c. num * 10 + of_int (char_int c - 48)) (of_nat n :: 'a::len word) ds
   = of_nat (foldl (\<lambda>n c. n * 10 + (of_char c - 48)) n ds)"
proof (induction ds arbitrary: n)
  case Nil
  then show ?case by simp
next
  case (Cons c ds)
  then have "isdigit c" "list_all isdigit ds" by simp_all
  have "(of_nat n :: 'a word) * 10 + of_int (char_int c - 48) = of_nat (n * 10 + (of_char c - 48))"
    using \<open>isdigit c\<close> by (simp only: digit_val of_nat_add of_nat_mult of_nat_numeral)
  then show ?case using Cons.IH [OF \<open>list_all isdigit ds\<close>, of "n * 10 + (of_char c - 48)"]
    by simp
qed

lemma buf_asulong_decimal:
  "list_all isdigit (bytes b) \<Longrightarrow> (buf_asulong b :: 'a::len word) = of_nat (decimal (bytes b))"
  using asulong_fold [of "bytes b" 0, where 'a='a]
  by (simp add: buf_asulong_def decimal_def bytes_def)

text \<open>
  Claim C10. For every buffer whose bytes are all decimal digits, \<open>buf_asulong\<close> returns
  the base-10 value of the bytes reduced modulo \<open>2 ^ w\<close>, for every width \<open>w\<close> of
  \<open>unsigned long\<close>: overflow wraps, it does not saturate. The empty buffer yields 0.
\<close>

theorem buf_asulong_mod:
  "list_all isdigit (bytes b) \<Longrightarrow>
   unat (buf_asulong b :: 'a::len word) = decimal (bytes b) mod 2 ^ LENGTH('a)
   \<and> (len b = 0 \<longrightarrow> (buf_asulong b :: 'a word) = 0)"
  by (simp add: buf_asulong_decimal unat_of_nat) (simp add: decimal_def bytes_def)

theorem buf_asulong_mod_witness:
  "list_all isdigit (bytes \<lparr>str = ''18446744073709551617'', len = 20\<rparr>)
   \<and> decimal (bytes \<lparr>str = ''18446744073709551617'', len = 20\<rparr>) = 18446744073709551617
   \<and> unat (buf_asulong \<lparr>str = ''18446744073709551617'', len = 20\<rparr> :: 64 word) = 1"
proof -
  have h: "list_all isdigit (bytes \<lparr>str = ''18446744073709551617'', len = 20\<rparr>)"
    by (simp add: bytes_def isdigit_def)
  have d: "decimal (bytes \<lparr>str = ''18446744073709551617'', len = 20\<rparr>) = 18446744073709551617"
    by (simp add: bytes_def decimal_def)
  show ?thesis
    using h d buf_asulong_mod [OF h, where 'a=64] by simp
qed

subsection \<open>Evaluation\<close>

lemma eval_BinNode_Inr:
  assumes "eval ok (BinNode t l r) = Inr x"
  obtains lb rb where "eval ok l = Inr lb" "eval ok r = Inr rb"
    "(t = EX_CONCAT \<and> x = buf_concat lb rb) \<or>
     (t = EX_REPEAT \<and> buf_repeat ok lb (unat (buf_asulong rb :: 64 word)) = Inr x)"
proof (cases "eval ok l")
  case (Inl e)
  with assms show ?thesis by (simp split: if_splits)
next
  case l: (Inr lb)
  show ?thesis
  proof (cases "eval ok r")
    case (Inl e)
    with assms l show ?thesis by (simp split: if_splits)
  next
    case r: (Inr rb)
    from assms l r have "(t = EX_CONCAT \<and> x = buf_concat lb rb) \<or>
     (t = EX_REPEAT \<and> buf_repeat ok lb (unat (buf_asulong rb :: 64 word)) = Inr x)"
      by (simp split: if_splits) 
    with l r that show ?thesis by blast
  qed
qed

lemma eval_wf: "ast_wf a \<Longrightarrow> eval ok a = Inr x \<Longrightarrow> buf_wf x"
proof (induction a arbitrary: x)
  case (LitNode t b)
  then show ?case using buf_dup_wf [of b] by (auto split: if_splits)
next
  case (BinNode t l r)
  from BinNode.prems(2) obtain lb rb where e: "eval ok l = Inr lb" "eval ok r = Inr rb"
    and c: "(t = EX_CONCAT \<and> x = buf_concat lb rb) \<or>
     (t = EX_REPEAT \<and> buf_repeat ok lb (unat (buf_asulong rb :: 64 word)) = Inr x)"
    by (rule eval_BinNode_Inr)
  have wl: "buf_wf lb" and wr: "buf_wf rb"
    using BinNode.IH BinNode.prems(1) e by simp_all
  from c show ?case
    using buf_concat_bytes(2) [OF wl wr] buf_repeat_bytes(3) [OF wl] by blast
qed




subsection \<open>Repetition\<close>

lemma eval_repeat_count:
  assumes "eval ok l = Inr x" "eval ok r = Inr y" "list_all isdigit (bytes y)"
  shows "eval ok (fst (ast_new_binop EX_REPEAT l r w)) = buf_repeat ok x (decimal (bytes y) mod 2 ^ 64)"
proof -
  have "unat (buf_asulong y :: 64 word) = decimal (bytes y) mod 2 ^ 64"
    using buf_asulong_decimal [OF assms(3), where 'a=64] by (simp add: unat_of_nat)
  then show ?thesis using assms(1,2) by (simp add: ast_new_binop_def)
qed

text \<open>
  Claim C3, as amended. For every well-formed buffer \<open>a\<close> and every count \<open>n\<close> such
  that \<open>a.len * n\<close> is below \<open>2 ^ 64\<close> and \<open>malloc\<close> grants a block of that size,
  \<open>buf_repeat\<close> returns a buffer holding the bytes of \<open>a\<close> repeated \<open>n\<close> times in
  order, of length \<open>a.len * n\<close>; the count 0 yields the empty buffer, whatever
  \<open>malloc\<close> answers. Hence, when the left operand evaluates to \<open>x\<close> and the right
  operand to the digit string \<open>y\<close>, the repetition node evaluates to \<open>x\<close> repeated as
  many times as the number \<open>y\<close> denotes modulo \<open>2 ^ 64\<close>, under the same two provisos
  on the length of the result; a count of 0 yields the empty result. When an operand does
  not evaluate, the repetition node ends as the first such operand ends.
\<close>

theorem buf_repeat_eval:
  "(buf_wf a \<and> len a * n < 2 ^ 64 \<and> ok (len a * n)
      \<longrightarrow> (\<exists>b. buf_repeat ok a n = Inr b \<and> bytes b = concat (replicate n (bytes a))
                \<and> len b = len a * n))
   \<and> (\<exists>b. buf_repeat ok a 0 = Inr b \<and> bytes b = [] \<and> len b = 0)
   \<and> (ast_wf l \<and> eval ok l = Inr x \<and> eval ok r = Inr y \<and> list_all isdigit (bytes y)
        \<and> len x * (decimal (bytes y) mod 2 ^ 64) < 2 ^ 64
        \<and> ok (len x * (decimal (bytes y) mod 2 ^ 64))
      \<longrightarrow> eval_bytes ok (fst (ast_new_binop EX_REPEAT l r w))
            = Inr (concat (replicate (decimal (bytes y) mod 2 ^ 64) (bytes x))))
   \<and> (eval ok l' = Inr x' \<and> eval ok r' = Inr y' \<and> list_all isdigit (bytes y')
        \<and> decimal (bytes y') mod 2 ^ 64 = 0
      \<longrightarrow> eval_bytes ok (fst (ast_new_binop EX_REPEAT l' r' w)) = Inr [])
   \<and> (eval ok la = Inl ea \<longrightarrow> eval ok (fst (ast_new_binop EX_REPEAT la ra w)) = Inl ea)
   \<and> (eval ok lb = Inr xb \<and> eval ok rb = Inl eb
      \<longrightarrow> eval ok (fst (ast_new_binop EX_REPEAT lb rb w)) = Inl eb)"
proof (intro conjI impI)
  assume "buf_wf a \<and> len a * n < 2 ^ 64 \<and> ok (len a * n)"
  then have h: "buf_wf a" "len a * n < 2 ^ 64" "ok (len a * n)" by simp_all
  obtain b where b: "buf_repeat ok a n = Inr b"
    using buf_repeat_ok [of a n ok, OF h] by simp
  from buf_repeat_bytes(1,2) [OF h(1) b] b
  show "\<exists>b. buf_repeat ok a n = Inr b \<and> bytes b = concat (replicate n (bytes a)) \<and> len b = len a * n"
    by simp
next
  show "\<exists>b. buf_repeat ok a 0 = Inr b \<and> bytes b = [] \<and> len b = 0"
    by (simp add: buf_repeat_zero bytes_def)
next
  assume "ast_wf l \<and> eval ok l = Inr x \<and> eval ok r = Inr y \<and> list_all isdigit (bytes y)
        \<and> len x * (decimal (bytes y) mod 2 ^ 64) < 2 ^ 64
        \<and> ok (len x * (decimal (bytes y) mod 2 ^ 64))"
  then have h: "ast_wf l" "eval ok l = Inr x" "eval ok r = Inr y" "list_all isdigit (bytes y)"
    "len x * (decimal (bytes y) mod 2 ^ 64) < 2 ^ 64" "ok (len x * (decimal (bytes y) mod 2 ^ 64))"
    by simp_all
  have wx: "buf_wf x" using h(1,2) by (rule eval_wf)
  obtain b where b: "buf_repeat ok x (decimal (bytes y) mod 2 ^ 64) = Inr b"
    using buf_repeat_ok [of x _ ok, OF wx h(5,6)] by simp
  have bb: "bytes b = concat (replicate (decimal (bytes y) mod 2 ^ 64) (bytes x))"
    using buf_repeat_bytes(1) [OF wx b] .
  show "eval_bytes ok (fst (ast_new_binop EX_REPEAT l r w))
            = Inr (concat (replicate (decimal (bytes y) mod 2 ^ 64) (bytes x)))"
    using eval_repeat_count [OF h(2,3,4), of w] b bb by (simp add: eval_bytes_def)
next
  assume "eval ok l' = Inr x' \<and> eval ok r' = Inr y' \<and> list_all isdigit (bytes y')
        \<and> decimal (bytes y') mod 2 ^ 64 = 0"
  then have h: "eval ok l' = Inr x'" "eval ok r' = Inr y'" "list_all isdigit (bytes y')"
    "decimal (bytes y') mod 2 ^ 64 = 0"
    by simp_all
  show "eval_bytes ok (fst (ast_new_binop EX_REPEAT l' r' w)) = Inr []"
    using eval_repeat_count [OF h(1,2,3), of w] h(4)
    by (simp add: eval_bytes_def buf_repeat_zero bytes_def)
next
  assume "eval ok la = Inl ea"
  then show "eval ok (fst (ast_new_binop EX_REPEAT la ra w)) = Inl ea"
    by (simp add: ast_new_binop_def)
next
  assume "eval ok lb = Inr xb \<and> eval ok rb = Inl eb"
  then show "eval ok (fst (ast_new_binop EX_REPEAT lb rb w)) = Inl eb"
    by (simp add: ast_new_binop_def)
qed

theorem buf_repeat_eval_witness:
  "(\<exists>b. buf_repeat grant_all \<lparr>str = ''12'', len = 2\<rparr> 3 = Inr b \<and> bytes b = ''121212'' \<and> len b = 6)
   \<and> eval_bytes grant_all (fst (ast_new_binop EX_REPEAT (LitNode EX_LIT \<lparr>str = ''12'', len = 2\<rparr>)
                        (LitNode EX_LIT \<lparr>str = ''3'', len = 1\<rparr>) (fresh_world EX_LIT))) = Inr ''121212''
   \<and> eval_bytes grant_all (fst (ast_new_binop EX_REPEAT (LitNode EX_LIT \<lparr>str = ''12'', len = 2\<rparr>)
                        (LitNode EX_LIT \<lparr>str = ''0'', len = 1\<rparr>) (fresh_world EX_LIT))) = Inr []
   \<and> eval grant_all (fst (ast_new_binop EX_REPEAT (LitNode 7 \<lparr>str = ''12'', len = 2\<rparr>)
                        (LitNode EX_LIT \<lparr>str = ''3'', len = 1\<rparr>) (fresh_world EX_LIT)))
       = Inl (Fatal ''Attempt to evaluate unknown node'')
   \<and> eval grant_all (fst (ast_new_binop EX_REPEAT (LitNode EX_LIT \<lparr>str = ''12'', len = 2\<rparr>)
                        (LitNode 7 \<lparr>str = ''3'', len = 1\<rparr>) (fresh_world EX_LIT)))
       = Inl (Fatal ''Attempt to evaluate unknown node'')"
proof -
  let ?a = "\<lparr>str = ''12'', len = 2\<rparr>" and ?n = "\<lparr>str = ''3'', len = 1\<rparr>"
  let ?z = "\<lparr>str = ''0'', len = 1\<rparr>"
  have h1: "buf_wf ?a \<and> len ?a * 3 < 2 ^ 64 \<and> grant_all (len ?a * 3)"
    by (simp add: buf_wf_def grant_all_def)
  have d: "decimal (bytes ?n) = 3" "decimal (bytes ?z) = 0" by (simp_all add: decimal_def bytes_def)
  have h3: "ast_wf (LitNode EX_LIT ?a) \<and> eval grant_all (LitNode EX_LIT ?a) = Inr ?a
        \<and> eval grant_all (LitNode EX_LIT ?n) = Inr ?n \<and> list_all isdigit (bytes ?n)
        \<and> len ?a * (decimal (bytes ?n) mod 2 ^ 64) < 2 ^ 64
        \<and> grant_all (len ?a * (decimal (bytes ?n) mod 2 ^ 64))"
    unfolding d by (simp add: buf_wf_def buf_dup_def memcpy_def malloc_def bytes_def isdigit_def grant_all_def)
  have h4: "eval grant_all (LitNode EX_LIT ?a) = Inr ?a
        \<and> eval grant_all (LitNode EX_LIT ?z) = Inr ?z \<and> list_all isdigit (bytes ?z)
        \<and> decimal (bytes ?z) mod 2 ^ 64 = 0"
    unfolding d by (simp add: buf_dup_def memcpy_def malloc_def bytes_def isdigit_def)
  have h5: "eval grant_all (LitNode 7 ?a) = Inl (Fatal ''Attempt to evaluate unknown node'')"
    by simp
  have h6: "eval grant_all (LitNode EX_LIT ?a) = Inr ?a
        \<and> eval grant_all (LitNode 7 ?n) = Inl (Fatal ''Attempt to evaluate unknown node'')"
    by (simp add: buf_dup_def memcpy_def malloc_def)
  have c: "concat (replicate 3 ''12'') = ''121212''" by (simp add: numeral_eq_Suc)
  note t = buf_repeat_eval [of ?a 3 grant_all "LitNode EX_LIT ?a" ?a "LitNode EX_LIT ?n" ?n
      "fresh_world EX_LIT" "LitNode EX_LIT ?a" ?a "LitNode EX_LIT ?z" ?z
      "LitNode 7 ?a" "Fatal ''Attempt to evaluate unknown node''" "LitNode EX_LIT ?n"
      "LitNode EX_LIT ?a" ?a "LitNode 7 ?n" "Fatal ''Attempt to evaluate unknown node''"]
  from t h1 have g1: "\<exists>b. buf_repeat grant_all ?a 3 = Inr b \<and> bytes b = concat (replicate 3 (bytes ?a))
           \<and> len b = len ?a * 3"
    by blast
  from t h3 have g3: "eval_bytes grant_all (fst (ast_new_binop EX_REPEAT (LitNode EX_LIT ?a)
                        (LitNode EX_LIT ?n) (fresh_world EX_LIT)))
            = Inr (concat (replicate (decimal (bytes ?n) mod 2 ^ 64) (bytes ?a)))"
    by blast
  from t h4 have g4: "eval_bytes grant_all (fst (ast_new_binop EX_REPEAT (LitNode EX_LIT ?a)
                        (LitNode EX_LIT ?z) (fresh_world EX_LIT))) = Inr []"
    by blast
  from t h5 have g5: "eval grant_all (fst (ast_new_binop EX_REPEAT (LitNode 7 ?a)
                        (LitNode EX_LIT ?n) (fresh_world EX_LIT)))
       = Inl (Fatal ''Attempt to evaluate unknown node'')"
    by blast
  from t h6 have g6: "eval grant_all (fst (ast_new_binop EX_REPEAT (LitNode EX_LIT ?a)
                        (LitNode 7 ?n) (fresh_world EX_LIT)))
       = Inl (Fatal ''Attempt to evaluate unknown node'')"
    by blast
  from g1 g3 [unfolded d] g4 g5 g6 show ?thesis by (simp add: bytes_def c)
qed

text \<open>
  The claim as stated fails at each of the three provisos. The count is read modulo
  \<open>2 ^ 64\<close>: \<open>1^18446744073709551616\<close> is not \<open>2 ^ 64\<close> copies of \<open>1\<close> but the
  empty string. The length \<open>a.len * n\<close> is computed in 64 bits: for a buffer of two
  bytes and the count \<open>2 ^ 63\<close> the block requested has no byte and the copies are
  written past it. The block may be refused: with an allocator that has less than
  \<open>2 ^ 47\<close> bytes to give, \<open>1^1000000000000000\<close> copies through the null pointer.
\<close>

theorem repeat_limits_counterexample:
  "decimal ''18446744073709551616'' = 18446744073709551616
   \<and> eval_bytes grant_all (BinNode EX_REPEAT (LitNode EX_LIT \<lparr>str = ''1'', len = 1\<rparr>)
                   (LitNode EX_LIT \<lparr>str = ''18446744073709551616'', len = 20\<rparr>)) = Inr []
   \<and> buf_repeat grant_all \<lparr>str = ''12'', len = 2\<rparr> 9223372036854775808 = Inl Undefined
   \<and> decimal ''1000000000000000'' = 1000000000000000
   \<and> eval_bytes (grant_below (2 ^ 47)) (BinNode EX_REPEAT (LitNode EX_LIT \<lparr>str = ''1'', len = 1\<rparr>)
                   (LitNode EX_LIT \<lparr>str = ''1000000000000000'', len = 16\<rparr>)) = Inl Undefined"
  by (simp add: decimal_def eval_bytes_def buf_dup_def memcpy_def malloc_def buf_asulong_def
        char_int_def buf_repeat_def bytes_def buf_repeat_loop.simps grant_all_def grant_below_def)

subsection \<open>Node constructors\<close>

lemma ast_new_lit_copy:
  "buf_wf buf \<Longrightarrow> bytes (node_buf (fst (ast_new_lit buf w))) = bytes buf
     \<and> node_type (fst (ast_new_lit buf w)) = node_mem w (node_cnt w)"
  by (simp add: ast_new_lit_def buf_dup_wf)

lemma ast_new_binop_tag: "node_type (fst (ast_new_binop t l r w)) = t"
  by (simp add: ast_new_binop_def)

text \<open>
  Claim C6 asks that \<open>ast_new_lit\<close> return a node whose tag is \<open>EX_LIT\<close>. The source
  never writes the tag: with an allocator whose blocks hold the value of \<open>EX_REPEAT\<close>
  there, the node for the buffer \<open>1\<close> carries that tag, and evaluating it reads the
  children of a node that has none.
\<close>

theorem ast_new_lit_tag:
  "node_type (fst (ast_new_lit \<lparr>str = ''1'', len = 1\<rparr> (fresh_world EX_REPEAT))) = EX_REPEAT
   \<and> eval ok (fst (ast_new_lit \<lparr>str = ''1'', len = 1\<rparr> (fresh_world EX_REPEAT))) = Inl Undefined"
  by (simp add: ast_new_lit_def fresh_world_def)

subsection \<open>Printing\<close>

lemma buf_print_world: "buf_print b w = w\<lparr>w_stdout := w_stdout w @ bytes b\<rparr>"
proof -
  have "foldl (\<lambda>w c. putchar c w) w cs = w\<lparr>w_stdout := w_stdout w @ cs\<rparr>" for cs
    by (induction cs arbitrary: w) (simp_all add: putchar_def)
  then show ?thesis by (simp add: buf_print_def bytes_def)
qed

lemma print_lev_loop_world:
  "print_lev_loop i lev w = w\<lparr>w_stdout := w_stdout w @ concat (replicate (nat (lev - i)) ''|   '')\<rparr>"
proof (induction i lev w rule: print_lev_loop.induct)
  case (1 i lev w)
  show ?case
  proof (cases "i < lev")
    case True
    then have n: "nat (lev - i) = Suc (nat (lev - (i + 1)))" by simp
    show ?thesis
      using True "1.IH" [OF True]
      by (subst print_lev_loop.simps) (simp add: n putchar_def)
  next
    case False
    then show ?thesis by (subst print_lev_loop.simps) simp
  qed
qed

lemma print_lev_world:
  "print_lev lev s w = w\<lparr>w_stdout := w_stdout w @ concat (replicate (nat lev) ''|   '') @ s\<rparr>"
  by (simp add: print_lev_def printf_def print_lev_loop_world)

lemma ast_print_inner_lines:
  "ast_print_inner (LitNode EX_LIT b) lev w
     = Inr (w\<lparr>w_stdout := w_stdout w @ concat (replicate (nat lev) ''|   '')
                 @ ''String literal:'' @ bytes b @ [CHR 0x0A]\<rparr>)"
  by (simp add: print_lev_world buf_print_world printf_def)

text \<open>
  Claim C8, as amended. \<open>print_lev\<close> at level \<open>lev\<close> writes exactly \<open>lev\<close> copies
  of the 4-character unit made of a bar and three spaces, then the text.
\<close>

theorem print_lev_prefix:
  "w_stdout (print_lev lev s w) = w_stdout w @ concat (replicate (nat lev) ''|   '') @ s
   \<and> length ''|   '' = 4"
  by (simp add: print_lev_world)

text \<open>
  The claim as stated gives the unit 3 characters: at level 1 the prefix has 4.
\<close>

theorem print_lev_unit_counterexample:
  "w_stdout (print_lev 1 [] (fresh_world EX_LIT)) = ''|   ''
   \<and> length (w_stdout (print_lev 1 [] (fresh_world EX_LIT))) \<noteq> 3 * 1"
  by (simp add: print_lev_world fresh_world_def)

subsection \<open>The tokenizer\<close>

lemma next_tok_rc: "fst (next_tok tok inp w) = 0"
  by (induction tok inp w rule: next_tok.induct) (simp_all split: prod.splits)

lemma next_tok_while_len:
  "next_tok_while tok cs = (tok', rest) \<Longrightarrow> length rest \<le> length cs \<and> tok_type tok' = tok_type tok"
proof (induction cs arbitrary: tok)
  case Nil
  then show ?case by simp
next
  case (Cons c cs)
  show ?case
  proof (cases "isdigit c")
    case True
    with Cons.prems obtain tok2 where "next_tok_while tok2 cs = (tok', rest)"
      and "tok_type tok2 = tok_type tok"
      by (simp add: Let_def split: if_splits)
    with Cons.IH [of tok2] show ?thesis by simp
  next
    case False
    with Cons.prems show ?thesis by simp
  qed
qed

lemma next_tok_len:
  "next_tok tok inp w = (rc, tok', rest, w') \<Longrightarrow>
   length rest \<le> length inp \<and> (tok_type tok' \<noteq> TOK_EOF \<longrightarrow> length rest < length inp)"
proof (induction tok inp w rule: next_tok.induct)
  case (1 tok w)
  then show ?case by auto
next
  case (2 tok c cs w)
  show ?case
  proof (cases "c \<in> set ''().^''")
    case True
    with "2.prems" show ?thesis by auto
  next
    case op: False
    show ?thesis
    proof (cases "c \<in> set ''0123456789''")
      case True
      with op "2.prems" obtain t0 where "next_tok_while t0 cs = (tok', rest)"
        by (simp split: prod.splits)
      from next_tok_while_len [OF this] show ?thesis by simp
    next
      case dg: False
      show ?thesis
      proof (cases "c \<in> {CHR '' '', CHR 0x09, CHR 0x08, CHR 0x0B, CHR 0x0D, CHR 0x0A}")
        case True
        with op dg "2.prems" have "next_tok tok cs w = (rc, tok', rest, w')" by simp
        from "2.IH"(1) [OF op dg True this] show ?thesis by auto
      next
        case False
        with op dg "2.prems" have "next_tok tok cs
             (err (''Ignoring unrecognized character '' @ [CHR 0x27, c, CHR 0x27] @ '' in input'') w)
             = (rc, tok', rest, w')" by simp
        from "2.IH"(2) [OF op dg False this] show ?thesis by auto
      qed
    qed
  qed
qed

lemma tokenizer_consume_rc: "fst (tokenizer_consume tz w) = 0"
proof -
  obtain rc tok rest w1 where a: "next_tok (tz_next tz) (tz_in tz) w = (rc, tok, rest, w1)"
    by (metis prod_cases4)
  from a next_tok_rc [of "tz_next tz" "tz_in tz" w]
  show ?thesis by (simp add: tokenizer_consume_def tok_free_def Let_def)
qed

lemma tokenizer_consume_rcD: "tokenizer_consume tz w = (rc, tz1, w1) \<Longrightarrow> rc = 0"
  using tokenizer_consume_rc [of tz w] by simp

lemma tokenizer_init_rc: "fst (tokenizer_init tz inp w) = 0"
proof -
  obtain rc tok rest w1 where a: "next_tok (tz_cur tz) inp w = (rc, tok, rest, w1)"
    by (metis prod_cases4)
  obtain rc' tok' rest' w2 where b: "next_tok (tz_next tz) rest w1 = (rc', tok', rest', w2)"
    by (metis prod_cases4)
  from a b next_tok_rc [of "tz_cur tz" inp w] next_tok_rc [of "tz_next tz" rest w1]
  show ?thesis by (simp add: tokenizer_init_def Let_def)
qed

lemma tokenizer_consume_size:
  assumes "tok_type (tz_cur tz) \<noteq> TOK_EOF" "tokenizer_consume tz w = (rc, tz1, w1)"
  shows "tz_size tz1 < tz_size tz"
proof -
  obtain rc' tok rest w' where a: "next_tok (tz_next tz) (tz_in tz) w = (rc', tok, rest, w')"
    by (metis prod_cases4)
  from assms(2) a have tz1: "tz1 = tz\<lparr>tz_cur := tz_next tz, tz_next := tok, tz_in := rest\<rparr>"
    by (simp add: tokenizer_consume_def tok_free_def Let_def split: if_splits)
  from next_tok_len [OF a] assms(1) show ?thesis
    by (auto simp: tz1 tz_size_def)
qed

lemma tokenizer_init_size:
  assumes "tokenizer_init tz inp w = (rc, tz1, w1)"
  shows "tz_size tz1 \<le> 3 * length inp + 3"
proof -
  obtain rc tok rest w1 where a: "next_tok (tz_cur tz) inp w = (rc, tok, rest, w1)"
    by (metis prod_cases4)
  obtain rc' tok' rest' w2 where b: "next_tok (tz_next tz) rest w1 = (rc', tok', rest', w2)"
    by (metis prod_cases4)
  from assms a b next_tok_rc [of "tz_cur tz" inp w] have tz1: "tz_in tz1 = rest'"
    by (auto simp: tokenizer_init_def Let_def split: if_splits)
  from next_tok_len [OF a] next_tok_len [OF b] have "length rest' \<le> length inp" by simp
  then show ?thesis by (simp add: tz_size_def tz1)
qed

subsection \<open>What the parser can return\<close>

lemma parse_outcomes_simps [simp]:
  "Inr x \<in> parse_outcomes"
  "Inl OutOfFuel \<in> parse_outcomes"
  "Inl (Fatal ''Syntax error: expected close paren'') \<in> parse_outcomes"
  "Inl (Fatal ''Syntax error: expected toplevel expression'') \<in> parse_outcomes"
  by (simp_all add: parse_outcomes_def grammar_errors_def)

lemma parse_outcomes_aux:
  "(\<forall>tz w. fst (parse_toplevel n tz w) \<in> parse_outcomes) \<and>
   (\<forall>tz w. fst (parse_repeat n tz w) \<in> parse_outcomes) \<and>
   (\<forall>l tz w. fst (parse_concat_loop n l tz w) \<in> parse_outcomes) \<and>
   (\<forall>tz w. fst (parse_concat n tz w) \<in> parse_outcomes) \<and>
   (\<forall>tz w. fst (parse n tz w) \<in> parse_outcomes)"
proof (induction n)
  case 0
  show ?case by simp
next
  case (Suc n)
  have tl: "fst (parse_toplevel (Suc n) tz w) \<in> parse_outcomes" for tz w
  proof -
    obtain rc tz1 w1 where c: "tokenizer_consume tz w = (rc, tz1, w1)" by (metis prod_cases3)
    have rc: "rc = 0" using c by (rule tokenizer_consume_rcD)
    obtain r tz2 w2 where p: "parse n tz1 w1 = (r, tz2, w2)" by (metis prod_cases3)
    have r: "r \<in> parse_outcomes" using Suc p by (metis fst_conv)
    obtain rc' tz3 w3 where c': "tokenizer_consume tz2 w2 = (rc', tz3, w3)" by (metis prod_cases3)
    have rc': "rc' = 0" using c' by (rule tokenizer_consume_rcD)
    show ?thesis
      using r by (cases r; cases "tok_type (tz_cur tz)")
        (auto simp: c rc p c' rc' Let_def fatal_def tokenizer_peek_def ast_new_lit_def)
  qed
  have rp: "fst (parse_repeat (Suc n) tz w) \<in> parse_outcomes" for tz w
  proof -
    obtain l tz1 w1 where t: "parse_toplevel n tz w = (l, tz1, w1)" by (metis prod_cases3)
    have l: "l \<in> parse_outcomes" using Suc t by (metis fst_conv)
    obtain rc tz2 w2 where c: "tokenizer_consume tz1 w1 = (rc, tz2, w2)" by (metis prod_cases3)
    have rc: "rc = 0" using c by (rule tokenizer_consume_rcD)
    obtain r tz3 w3 where p: "(if tok_type (tokenizer_peeknext tz2) = TOK_OP \<and> tok_op (tokenizer_peeknext tz2) = CHR ''^''
                       then parse_repeat n tz2 w2 else parse_toplevel n tz2 w2) = (r, tz3, w3)"
      by (metis prod_cases3)
    have r: "r \<in> parse_outcomes" using Suc p by (metis (full_types) fst_conv)
    show ?thesis
      using l r by (cases l; cases r)
        (auto simp: t c rc p Let_def fatal_def ast_new_binop_def)
  qed
  have lp: "fst (parse_concat_loop (Suc n) l tz w) \<in> parse_outcomes" for l tz w
  proof -
    obtain rc tz1 w1 where c: "tokenizer_consume tz w = (rc, tz1, w1)" by (metis prod_cases3)
    have rc: "rc = 0" using c by (rule tokenizer_consume_rcD)
    obtain r tz2 w2 where p: "parse_repeat n tz1 w1 = (r, tz2, w2)" by (metis prod_cases3)
    have r: "r \<in> parse_outcomes" using Suc p by (metis fst_conv)
    have rest: "fst (parse_concat_loop n l' tz2 w') \<in> parse_outcomes" for l' w'
      using Suc by blast
    show ?thesis
      using r rest by (cases r)
        (auto simp: c rc p Let_def fatal_def ast_new_binop_def)
  qed
  have cc: "fst (parse_concat (Suc n) tz w) \<in> parse_outcomes" for tz w
  proof -
    obtain l tz1 w1 where t: "parse_repeat n tz w = (l, tz1, w1)" by (metis prod_cases3)
    have l: "l \<in> parse_outcomes" using Suc t by (metis fst_conv)
    have rest: "fst (parse_concat_loop n l' tz1 w1) \<in> parse_outcomes" for l'
      using Suc by blast
    show ?thesis using l rest by (cases l) (auto simp: t)
  qed
  have pp: "fst (parse (Suc n) tz w) \<in> parse_outcomes" for tz w
    using Suc by simp
  from tl rp lp cc pp show ?case by blast
qed


lemma parse_in_outcomes:
  "fst (parse_toplevel n tz w) \<in> parse_outcomes"
  "fst (parse_repeat n tz w) \<in> parse_outcomes"
  "fst (parse_concat_loop n l tz w) \<in> parse_outcomes"
  "fst (parse_concat n tz w) \<in> parse_outcomes"
  "fst (parse n tz w) \<in> parse_outcomes"
  using parse_outcomes_aux [of n] by blast+

lemma consume_failure_not_outcome:
  "m \<in> set consume_failures \<Longrightarrow> Inl (Fatal m) \<notin> parse_outcomes"
  by (auto simp: parse_outcomes_def grammar_errors_def consume_failures_def)

lemma eval_Fatal: "eval ok a = Inl (Fatal m) \<Longrightarrow> m = ''Attempt to evaluate unknown node''"
proof (induction a)
  case (LitNode t b)
  then show ?case by (simp split: if_splits)
next
  case (BinNode t l r)
  show ?case
  proof (cases "eval ok l")
    case (Inl e)
    with BinNode show ?thesis by (simp split: if_splits)
  next
    case l: (Inr lb)
    show ?thesis
    proof (cases "eval ok r")
      case (Inl e)
      with BinNode l show ?thesis by (simp split: if_splits)
    next
      case (Inr rb)
      with BinNode.prems l show ?thesis by (simp add: buf_repeat_def split: if_splits)
    qed
  qed
qed

lemma ast_print_inner_error: "ast_print_inner a lev w = Inl e \<Longrightarrow> e = Undefined"
proof (induction a arbitrary: lev w)
  case (LitNode t b)
  then show ?case by (simp split: if_splits)
next
  case (BinNode t l r)
  then show ?case by (simp add: Let_def split: if_splits sum.splits)
qed

lemma ast_free_error: "ast_free a = Some e \<Longrightarrow> e = Undefined"
  by (induction a) (auto split: if_splits option.splits)

lemma main_error:
  assumes "fst (main tz inp w) = Inl (Fatal m)"
  shows "m \<in> set grammar_errors \<or> m = ''Attempt to evaluate unknown node''"
proof -
  obtain rc tz1 w1 where i: "tokenizer_init tz inp w = (rc, tz1, w1)" by (metis prod_cases3)
  have rc: "rc = 0" using tokenizer_init_rc [of tz inp w] i by simp
  obtain r tz2 w2 where p: "parse (parse_fuel inp) tz1 w1 = (r, tz2, w2)" by (metis prod_cases3)
  have r: "r \<in> parse_outcomes" using parse_in_outcomes(5) [of "parse_fuel inp" tz1 w1] p by simp
  show ?thesis
  proof (cases r)
    case (Inl e)
    with assms i rc p r show ?thesis by (auto simp: main_def parse_outcomes_def)
  next
    case (Inr a)
    with assms i rc p show ?thesis
      by (auto simp: main_def ast_print_def Let_def split: sum.splits option.splits
               dest: ast_print_inner_error eval_Fatal ast_free_error)
  qed
qed

text \<open>
  Claim C9. \<open>next_tok\<close> returns 0 on every input; so do \<open>tokenizer_consume\<close> and
  \<open>tokenizer_init\<close>; no parsing function ends in one of the \<open>fatal\<close> calls that guard
  \<open>tokenizer_consume\<close>, and \<open>main\<close> ends neither in one of them nor in the one that
  guards \<open>tokenizer_init\<close>.
\<close>

theorem tokenizer_never_fails:
  "fst (next_tok tok inp w) = 0
   \<and> fst (tokenizer_consume tz w) = 0
   \<and> fst (tokenizer_init tz inp w) = 0
   \<and> fst (parse_toplevel n tz w) \<notin> Inl ` Fatal ` set consume_failures
   \<and> fst (parse_repeat n tz w) \<notin> Inl ` Fatal ` set consume_failures
   \<and> fst (parse_concat_loop n l tz w) \<notin> Inl ` Fatal ` set consume_failures
   \<and> fst (parse_concat n tz w) \<notin> Inl ` Fatal ` set consume_failures
   \<and> fst (parse n tz w) \<notin> Inl ` Fatal ` set consume_failures
   \<and> fst (main tz inp w) \<notin> Inl ` Fatal ` set (''Failed to initialize tokenizer'' # consume_failures)"
proof -
  have "fst (main tz inp w) \<notin> Inl ` Fatal ` set (''Failed to initialize tokenizer'' # consume_failures)"
    using main_error [of tz inp w] by (auto simp: grammar_errors_def consume_failures_def)
  then show ?thesis
    using parse_in_outcomes(1,2,4,5) [of n tz w] parse_in_outcomes(3) [of n l tz w]
      consume_failure_not_outcome
    by (auto simp: next_tok_rc tokenizer_consume_rc tokenizer_init_rc)
qed

subsection \<open>String tokens\<close>

lemma char_of_nat_eq: "(of_char c :: nat) = of_char d \<Longrightarrow> c = d"
  by simp

lemma digit_set: "c \<in> set ''0123456789'' \<longleftrightarrow> isdigit c"
proof
  assume "c \<in> set ''0123456789''"
  then show "isdigit c" by (auto simp: isdigit_def)
next
  assume d: "isdigit c"
  then have "(of_char c :: nat) \<in> {48, 49, 50, 51, 52, 53, 54, 55, 56, 57}"
    unfolding isdigit_def by (simp only: insert_iff empty_iff) arith
  then have "(of_char c :: nat) \<in> of_char ` set ''0123456789''"
    by simp
  then obtain d where "d \<in> set ''0123456789''" and "(of_char c :: nat) = of_char d"
    by (rule imageE)
  then show "c \<in> set ''0123456789''"
    using char_of_nat_eq by blast
qed

text \<open>The invariant of the loop that collects the digits of a string token.\<close>

lemma next_tok_while_inv:
  assumes "length (str (tok_buf tok)) = tok_cap tok" "len (tok_buf tok) < tok_cap tok"
    and "next_tok_while tok cs = (tok', rest)"
  shows "bytes (tok_buf tok') = bytes (tok_buf tok) @ takeWhile isdigit cs
       \<and> rest = dropWhile isdigit cs
       \<and> length (str (tok_buf tok')) = tok_cap tok' \<and> len (tok_buf tok') < tok_cap tok'
       \<and> tok_type tok' = tok_type tok \<and> tok_op tok' = tok_op tok"
  using assms
proof (induction cs arbitrary: tok)
  case Nil
  then show ?case by simp
next
  case (Cons c cs)
  show ?case
  proof (cases "isdigit c")
    case False
    with Cons.prems show ?thesis by auto
  next
    case True
    let ?b = "tok_buf tok"
    let ?b1 = "?b\<lparr>str := (str ?b)[len ?b := c], len := len ?b + 1\<rparr>"
    let ?tok1 = "tok\<lparr>tok_buf := ?b1\<rparr>"
    let ?tok2 = "if len ?b1 \<ge> tok_cap ?tok1
                 then ?tok1\<lparr>tok_cap := 2 * tok_cap ?tok1,
                           tok_buf := ?b1\<lparr>str := realloc (str ?b1) (2 * tok_cap ?tok1)\<rparr>\<rparr>
                 else ?tok1"
    have "next_tok_while tok (c # cs) = next_tok_while ?tok2 cs"
      using True by (simp only: next_tok_while.simps Let_def if_True)
    then have step: "next_tok_while ?tok2 cs = (tok', rest)"
      using Cons.prems(3) by (simp only:)
    have b1: "bytes ?b1 = bytes ?b @ [c]"
      using Cons.prems(1,2) by (simp add: bytes_def take_Suc_conv_app_nth)
    have i1: "length (str (tok_buf ?tok2)) = tok_cap ?tok2"
      using Cons.prems(1,2) by (simp add: realloc_def)
    have i2: "len (tok_buf ?tok2) < tok_cap ?tok2"
      using Cons.prems(1,2) by simp
    have b2: "bytes (tok_buf ?tok2) = bytes ?b @ [c]"
      using b1 Cons.prems(1,2) by (simp add: bytes_def realloc_def)
    have t2: "tok_type ?tok2 = tok_type tok" "tok_op ?tok2 = tok_op tok" by simp_all
    from Cons.IH [OF i1 i2 step] b2 t2 True show ?thesis by simp
  qed
qed

lemma next_tok_digits:
  assumes "isdigit c" "next_tok tok (c # cs) w = (rc, tok', rest, w')"
  shows "tok_type tok' = TOK_STR \<and> bytes (tok_buf tok') = c # takeWhile isdigit cs
       \<and> rest = dropWhile isdigit cs \<and> buf_wf (tok_buf tok') \<and> w' = w"
proof -
  let ?t = "tok\<lparr>tok_type := TOK_STR, tok_cap := 8, tok_buf := \<lparr>str = (malloc 8)[0 := c], len = 1\<rparr>\<rparr>"
  have op: "c \<notin> set ''().^''" using assms(1) by (auto simp: isdigit_def)
  have dg: "c \<in> set ''0123456789''" using assms(1) by (simp only: digit_set)
  obtain t1 r1 where l: "next_tok_while ?t cs = (t1, r1)" by (metis surj_pair)
  have res: "tok' = t1" "rest = r1" "w' = w"
    using assms(2) op dg l by simp_all
  have b0: "bytes (tok_buf ?t) = [c]"
    by (simp add: bytes_def malloc_def numeral_eq_Suc)
  from next_tok_while_inv [OF _ _ l] b0 show ?thesis
    by (simp add: res buf_wf_def)
qed

lemma next_tok_wf:
  assumes "next_tok tok inp w = (rc, tok', rest, w')"
  shows "tok_wf tok'"
  using assms
proof (induction tok inp w rule: next_tok.induct)
  case (1 tok w)
  then show ?case by (auto simp: tok_wf_def)
next
  case (2 tok c cs w)
  show ?case
  proof (cases "isdigit c")
    case True
    from next_tok_digits [OF True "2.prems"] show ?thesis by (simp add: tok_wf_def)
  next
    case False
    then have dg: "c \<notin> set ''0123456789''" by (simp only: digit_set) simp
    show ?thesis
    proof (cases "c \<in> set ''().^''")
      case True
      with "2.prems" show ?thesis by (auto simp: tok_wf_def)
    next
      case op: False
      show ?thesis
      proof (cases "c \<in> {CHR '' '', CHR 0x09, CHR 0x08, CHR 0x0B, CHR 0x0D, CHR 0x0A}")
        case True
        with op dg "2.prems" have "next_tok tok cs w = (rc, tok', rest, w')" by simp
        from "2.IH"(1) [OF op dg True this] show ?thesis .
      next
        case False
        with op dg "2.prems" have "next_tok tok cs
             (err (''Ignoring unrecognized character '' @ [CHR 0x27, c, CHR 0x27] @ '' in input'') w)
             = (rc, tok', rest, w')" by simp
        from "2.IH"(2) [OF op dg False this] show ?thesis .
      qed
    qed
  qed
qed

lemma tokenizer_consume_wf:
  assumes "tz_wf tz" "tokenizer_consume tz w = (rc, tz1, w1)"
  shows "tz_wf tz1"
proof -
  obtain rc' tok rest w' where a: "next_tok (tz_next tz) (tz_in tz) w = (rc', tok, rest, w')"
    by (metis prod_cases4)
  from assms(2) a have tz1: "tz1 = tz\<lparr>tz_cur := tz_next tz, tz_next := tok, tz_in := rest\<rparr>"
    by (simp add: tokenizer_consume_def tok_free_def Let_def split: if_splits)
  from next_tok_wf [OF a] assms(1) show ?thesis by (simp add: tz1 tz_wf_def)
qed

lemma tokenizer_init_wf:
  assumes "tokenizer_init tz inp w = (rc, tz1, w1)"
  shows "tz_wf tz1"
proof -
  obtain rc tok rest w1 where a: "next_tok (tz_cur tz) inp w = (rc, tok, rest, w1)"
    by (metis prod_cases4)
  obtain rc' tok' rest' w2 where b: "next_tok (tz_next tz) rest w1 = (rc', tok', rest', w2)"
    by (metis prod_cases4)
  from assms a b next_tok_rc [of "tz_cur tz" inp w]
  have "tz_cur tz1 = tok" "tz_next tz1 = tok'"
    by (auto simp: tokenizer_init_def Let_def split: if_splits)
  with next_tok_wf [OF a] next_tok_wf [OF b] show ?thesis by (simp add: tz_wf_def)
qed

subsection \<open>The depth bound of the parser suffices\<close>

lemma progress_simps [simp]:
  "progress tz (Inl e, tz', w') = (e \<noteq> OutOfFuel)"
  "progress tz (Inr p, tz', w') = (tz_size tz' < tz_size tz)"
  "progress_eq tz (Inl e, tz', w') = (e \<noteq> OutOfFuel)"
  "progress_eq tz (Inr p, tz', w') = (tz_size tz' \<le> tz_size tz)"
  by (simp_all add: progress_def progress_eq_def)

lemma parse_fuel_aux:
  "tz_size tz = m \<Longrightarrow>
     (5 * m + 1 \<le> n \<longrightarrow> progress tz (parse_toplevel n tz w)) \<and>
     (5 * m + 2 \<le> n \<longrightarrow> progress tz (parse_repeat n tz w)) \<and>
     (5 * m + 3 \<le> n \<longrightarrow> progress_eq tz (parse_concat_loop n l tz w)) \<and>
     (5 * m + 4 \<le> n \<longrightarrow> progress tz (parse_concat n tz w)) \<and>
     (5 * m + 5 \<le> n \<longrightarrow> progress tz (parse n tz w))"
proof (induction m arbitrary: tz n w l rule: less_induct)
  case (less m)
  have small:
    "progress tz' (parse_toplevel k tz' w')" "progress tz' (parse_repeat k tz' w')"
    "progress_eq tz' (parse_concat_loop k l' tz' w')" "progress tz' (parse k tz' w')"
    if "tz_size tz' < m" "5 * m \<le> k" for tz' k w' l'
    using less.IH [OF that(1) refl, of k w' l'] that by simp_all
  have tl: "progress tz (parse_toplevel n tz w)" if n: "5 * m + 1 \<le> n" for n w
  proof -
    from n obtain k where k: "n = Suc k" "5 * m \<le> k" by (cases n) auto
    obtain rc tz1 w1 where c: "tokenizer_consume tz w = (rc, tz1, w1)" by (metis prod_cases3)
    have rc: "rc = 0" using c by (rule tokenizer_consume_rcD)
    show ?thesis
    proof (cases "tok_type (tz_cur tz)")
      case TOK_STR
      then have "tz_size tz1 < tz_size tz" using tokenizer_consume_size [OF _ c] by simp
      with TOK_STR show ?thesis
        by (simp add: k c rc tokenizer_peek_def ast_new_lit_def)
    next
      case TOK_EOF
      then show ?thesis by (simp add: k tokenizer_peek_def fatal_def)
    next
      case TOK_OP
      then have s1: "tz_size tz1 < m" using tokenizer_consume_size [OF _ c] less.prems by simp
      obtain r tz2 w2 where p: "parse k tz1 w1 = (r, tz2, w2)" by (metis prod_cases3)
      have pr: "progress tz1 (r, tz2, w2)" using small(4) [OF s1 k(2), of w1] p by simp
      obtain rc' tz3 w3 where c': "tokenizer_consume tz2 w2 = (rc', tz3, w3)" by (metis prod_cases3)
      have rc': "rc' = 0" using c' by (rule tokenizer_consume_rcD)
      have s3: "tok_type (tz_cur tz2) = TOK_OP \<Longrightarrow> tz_size tz3 < tz_size tz2"
        using tokenizer_consume_size [OF _ c'] by simp
      show ?thesis
        using TOK_OP pr s1 s3 less.prems
        by (cases r) (auto simp: k c rc p c' rc' tokenizer_peek_def fatal_def Let_def)
    qed
  qed
  have rp: "progress tz (parse_repeat n tz w)" if n: "5 * m + 2 \<le> n" for n w
  proof -
    from n obtain k where k: "n = Suc k" "5 * m + 1 \<le> k" by (cases n) auto
    obtain r tz1 w1 where t: "parse_toplevel k tz w = (r, tz1, w1)" by (metis prod_cases3)
    have pr: "progress tz (r, tz1, w1)" using tl [OF k(2), of w] t by simp
    show ?thesis
    proof (cases r)
      case (Inl e)
      with pr show ?thesis by (simp add: k t)
    next
      case (Inr left)
      with pr have s1: "tz_size tz1 < m" using less.prems by simp
      obtain rc tz2 w2 where c: "tokenizer_consume tz1 w1 = (rc, tz2, w2)" by (metis prod_cases3)
      have rc: "rc = 0" using c by (rule tokenizer_consume_rcD)
      have s2: "tok_type (tz_cur tz1) = TOK_OP \<Longrightarrow> tz_size tz2 < tz_size tz1"
        using tokenizer_consume_size [OF _ c] by simp
      obtain r' tz3 w3 where p: "(if tok_type (tokenizer_peeknext tz2) = TOK_OP \<and> tok_op (tokenizer_peeknext tz2) = CHR ''^''
                       then parse_repeat k tz2 w2 else parse_toplevel k tz2 w2) = (r', tz3, w3)"
        by (metis prod_cases3)
      have pr': "tok_type (tz_cur tz1) = TOK_OP \<Longrightarrow> progress tz2 (r', tz3, w3)"
      proof -
        assume "tok_type (tz_cur tz1) = TOK_OP"
        then have "tz_size tz2 < m" using s1 s2 by simp
        from small(1,2) [OF this, of k w2] k(2) p show ?thesis
          by (auto split: if_splits)
      qed
      show ?thesis
        using Inr s1 s2 pr' less.prems
        by (cases r') (auto simp: k t c rc p tokenizer_peek_def fatal_def Let_def ast_new_binop_def)
    qed
  qed
  have lp: "progress_eq tz (parse_concat_loop n l tz w)" if n: "5 * m + 3 \<le> n" for n l w
  proof -
    from n obtain k where k: "n = Suc k" "5 * m + 2 \<le> k" by (cases n) auto
    obtain rc tz1 w1 where c: "tokenizer_consume tz w = (rc, tz1, w1)" by (metis prod_cases3)
    have rc: "rc = 0" using c by (rule tokenizer_consume_rcD)
    have s1: "tok_type (tz_cur tz) = TOK_OP \<Longrightarrow> tz_size tz1 < m"
      using tokenizer_consume_size [OF _ c] less.prems by simp
    obtain r tz2 w2 where p: "parse_repeat k tz1 w1 = (r, tz2, w2)" by (metis prod_cases3)
    have pr: "tok_type (tz_cur tz) = TOK_OP \<Longrightarrow> progress tz1 (r, tz2, w2)"
      using small(2) [OF s1, of k w1] k(2) p by simp
    have rest: "tok_type (tz_cur tz) = TOK_OP \<Longrightarrow> r = Inr right \<Longrightarrow>
                progress_eq tz2 (parse_concat_loop k l' tz2 w')" for right l' w'
    proof -
      assume a: "tok_type (tz_cur tz) = TOK_OP" "r = Inr right"
      then have "tz_size tz2 < m" using pr s1 by simp
      from small(3) [OF this, of k] k(2) show ?thesis by simp
    qed
    show ?thesis
    proof (cases "tok_type (tz_cur tz) = TOK_OP \<and> tok_op (tz_cur tz) = CHR ''.''")
      case False
      then show ?thesis by (auto simp: k tokenizer_peek_def Let_def)
    next
      case True
      then have op: "tok_type (tz_cur tz) = TOK_OP" by simp
      show ?thesis
      proof (cases r)
        case (Inl e)
        with True pr [OF op] show ?thesis
          by (simp add: k c rc p tokenizer_peek_def Let_def)
      next
        case (Inr right)
        obtain r' tz3 w3 where q: "parse_concat_loop k (BinNode (Suc 0) l right) tz2
                                     (w2\<lparr>node_cnt := Suc (node_cnt w2)\<rparr>) = (r', tz3, w3)"
          by (metis prod_cases3)
        have "progress_eq tz2 (r', tz3, w3)" using rest [OF op Inr] q by metis
        moreover have "tz_size tz2 < tz_size tz" using pr [OF op] s1 [OF op] Inr less.prems by simp
        ultimately show ?thesis
          using True Inr by (cases r') (simp_all add: k c rc p q tokenizer_peek_def Let_def ast_new_binop_def)
      qed
    qed
  qed
  have cc: "progress tz (parse_concat n tz w)" if n: "5 * m + 4 \<le> n" for n w
  proof -
    from n obtain k where k: "n = Suc k" "5 * m + 3 \<le> k" by (cases n) auto
    obtain r tz1 w1 where t: "parse_repeat k tz w = (r, tz1, w1)" by (metis prod_cases3)
    have pr: "progress tz (r, tz1, w1)" using rp [of k w] k(2) t by simp
    show ?thesis
    proof (cases r)
      case (Inl e)
      with pr show ?thesis by (simp add: k t)
    next
      case (Inr left)
      with pr have s1: "tz_size tz1 < m" using less.prems by simp
      obtain r' tz3 w3 where q: "parse_concat_loop k left tz1 w1 = (r', tz3, w3)"
        by (metis prod_cases3)
      have "progress_eq tz1 (r', tz3, w3)" using small(3) [OF s1, of k left w1] k(2) q by simp
      then show ?thesis using Inr s1 less.prems by (cases r') (simp_all add: k t q)
    qed
  qed
  have pp: "progress tz (parse n tz w)" if n: "5 * m + 5 \<le> n" for n w
  proof -
    from n obtain k where k: "n = Suc k" "5 * m + 4 \<le> k" by (cases n) auto
    show ?thesis using cc [OF k(2)] by (simp add: k)
  qed
  from tl rp lp cc pp show ?case by blast
qed

lemma parse_fuel_enough:
  assumes "tokenizer_init tz0 inp w = (rc, tz, w1)"
  shows "fst (parse (parse_fuel inp) tz w1) \<noteq> Inl OutOfFuel"
proof -
  have "5 * tz_size tz + 5 \<le> parse_fuel inp"
    using tokenizer_init_size [OF assms] by (simp add: parse_fuel_def)
  with parse_fuel_aux [OF refl, of tz "parse_fuel inp" w1]
  have "progress tz (parse (parse_fuel inp) tz w1)" by simp
  then show ?thesis by (auto simp: progress_def split: prod.splits sum.splits)
qed

text \<open>A larger bound does not change a result that was reached within the bound.\<close>

lemma parse_fuel_Suc_aux:
  "(\<forall>tz w. fst (parse_toplevel n tz w) \<noteq> Inl OutOfFuel \<longrightarrow> parse_toplevel (Suc n) tz w = parse_toplevel n tz w) \<and>
   (\<forall>tz w. fst (parse_repeat n tz w) \<noteq> Inl OutOfFuel \<longrightarrow> parse_repeat (Suc n) tz w = parse_repeat n tz w) \<and>
   (\<forall>l tz w. fst (parse_concat_loop n l tz w) \<noteq> Inl OutOfFuel \<longrightarrow>
        parse_concat_loop (Suc n) l tz w = parse_concat_loop n l tz w) \<and>
   (\<forall>tz w. fst (parse_concat n tz w) \<noteq> Inl OutOfFuel \<longrightarrow> parse_concat (Suc n) tz w = parse_concat n tz w) \<and>
   (\<forall>tz w. fst (parse n tz w) \<noteq> Inl OutOfFuel \<longrightarrow> parse (Suc n) tz w = parse n tz w)"
proof (induction n)
  case 0
  show ?case by simp
next
  case (Suc n)
  have tl: "parse_toplevel (Suc (Suc n)) tz w = parse_toplevel (Suc n) tz w"
    if h: "fst (parse_toplevel (Suc n) tz w) \<noteq> Inl OutOfFuel" for tz w
  proof -
    obtain rc tz1 w1 where c: "tokenizer_consume tz w = (rc, tz1, w1)" by (metis prod_cases3)
    obtain r tz2 w2 where p: "parse n tz1 w1 = (r, tz2, w2)" by (metis prod_cases3)
    have "tok_type (tz_cur tz) = TOK_OP \<Longrightarrow> tok_op (tz_cur tz) = CHR ''('' \<Longrightarrow> rc = 0
          \<Longrightarrow> parse (Suc n) tz1 w1 = parse n tz1 w1"
    proof -
      assume a: "tok_type (tz_cur tz) = TOK_OP" "tok_op (tz_cur tz) = CHR ''(''" "rc = 0"
      have "r \<noteq> Inl OutOfFuel"
        using h a c p by (cases r) (auto simp: tokenizer_peek_def)
      then show ?thesis using Suc p by (metis fst_conv)
    qed
    then show ?thesis
      by (cases "tok_type (tz_cur tz)")
        (simp_all add: tokenizer_peek_def c del: parse.simps parse_concat.simps)
  qed
  have rp: "parse_repeat (Suc (Suc n)) tz w = parse_repeat (Suc n) tz w"
    if h: "fst (parse_repeat (Suc n) tz w) \<noteq> Inl OutOfFuel" for tz w
  proof -
    obtain l tz1 w1 where t: "parse_toplevel n tz w = (l, tz1, w1)" by (metis prod_cases3)
    have l: "l \<noteq> Inl OutOfFuel" using h t by (cases l) auto
    then have t': "parse_toplevel (Suc n) tz w = (l, tz1, w1)" using Suc t by (metis fst_conv)
    obtain rc tz2 w2 where c: "tokenizer_consume tz1 w1 = (rc, tz2, w2)" by (metis prod_cases3)
    have inner: "parse_repeat (Suc n) tz2 w2 = parse_repeat n tz2 w2"
      if "l = Inr left" "tok_type (tz_cur tz1) = TOK_OP" "tok_op (tz_cur tz1) = CHR ''^''" "rc = 0"
         "tok_type (tz_next tz2) = TOK_OP \<and> tok_op (tz_next tz2) = CHR ''^''" for left
    proof -
      obtain r tz3 w3 where p: "parse_repeat n tz2 w2 = (r, tz3, w3)" by (metis prod_cases3)
      have "r \<noteq> Inl OutOfFuel"
        using h t that c p by (cases r) (auto simp: tokenizer_peek_def tokenizer_peeknext_def)
      then show ?thesis using Suc p by (metis fst_conv)
    qed
    have inner': "parse_toplevel (Suc n) tz2 w2 = parse_toplevel n tz2 w2"
      if "l = Inr left" "tok_type (tz_cur tz1) = TOK_OP" "tok_op (tz_cur tz1) = CHR ''^''" "rc = 0"
         "\<not> (tok_type (tz_next tz2) = TOK_OP \<and> tok_op (tz_next tz2) = CHR ''^'')" for left
    proof -
      obtain r tz3 w3 where p: "parse_toplevel n tz2 w2 = (r, tz3, w3)" by (metis prod_cases3)
      have "r \<noteq> Inl OutOfFuel"
        using h t that c p by (cases r) (auto simp: tokenizer_peek_def tokenizer_peeknext_def)
      then show ?thesis using Suc p by (metis fst_conv)
    qed
    show ?thesis
    proof (cases l)
      case (Inl e)
      then show ?thesis
        unfolding parse_repeat.simps(2) [of "Suc n" tz w] parse_repeat.simps(2) [of n tz w] t t' by simp
    next
      case (Inr left)
      show ?thesis
        unfolding parse_repeat.simps(2) [of "Suc n" tz w] parse_repeat.simps(2) [of n tz w] t t'
        using inner [OF Inr] inner' [OF Inr]
        by (auto simp: Inr c tokenizer_peek_def tokenizer_peeknext_def Let_def
                 simp del: parse_repeat.simps parse_toplevel.simps)
    qed
  qed
  have lp: "parse_concat_loop (Suc (Suc n)) l tz w = parse_concat_loop (Suc n) l tz w"
    if h: "fst (parse_concat_loop (Suc n) l tz w) \<noteq> Inl OutOfFuel" for l tz w
  proof -
    obtain rc tz1 w1 where c: "tokenizer_consume tz w = (rc, tz1, w1)" by (metis prod_cases3)
    obtain r tz2 w2 where p: "parse_repeat n tz1 w1 = (r, tz2, w2)" by (metis prod_cases3)
    have inner: "parse_repeat (Suc n) tz1 w1 = (r, tz2, w2) \<and>
                 (\<forall>right. r = Inr right \<longrightarrow>
                    parse_concat_loop (Suc n) (BinNode (Suc 0) l right) tz2 (w2\<lparr>node_cnt := Suc (node_cnt w2)\<rparr>)
                    = parse_concat_loop n (BinNode (Suc 0) l right) tz2 (w2\<lparr>node_cnt := Suc (node_cnt w2)\<rparr>))"
      if a: "tok_type (tz_cur tz) = TOK_OP" "tok_op (tz_cur tz) = CHR ''.''" "rc = 0"
    proof -
      have r: "r \<noteq> Inl OutOfFuel"
        using h a c p by (cases r) (auto simp: tokenizer_peek_def)
      then have 1: "parse_repeat (Suc n) tz1 w1 = (r, tz2, w2)" using Suc p by (metis fst_conv)
      have 2: "parse_concat_loop (Suc n) (BinNode (Suc 0) l right) tz2 (w2\<lparr>node_cnt := Suc (node_cnt w2)\<rparr>)
                    = parse_concat_loop n (BinNode (Suc 0) l right) tz2 (w2\<lparr>node_cnt := Suc (node_cnt w2)\<rparr>)"
        if "r = Inr right" for right
      proof -
        have "fst (parse_concat_loop n (BinNode (Suc 0) l right) tz2 (w2\<lparr>node_cnt := Suc (node_cnt w2)\<rparr>))
               \<noteq> Inl OutOfFuel"
          using h a c p that by (auto simp: tokenizer_peek_def ast_new_binop_def)
        then show ?thesis using Suc by blast
      qed
      from 1 2 show ?thesis by blast
    qed
    show ?thesis
      unfolding parse_concat_loop.simps(2) [of "Suc n" l tz w] parse_concat_loop.simps(2) [of n l tz w]
      using inner
      by (cases r) (auto simp: c p tokenizer_peek_def Let_def ast_new_binop_def
                 simp del: parse_repeat.simps parse_concat_loop.simps)
  qed
  have cc: "parse_concat (Suc (Suc n)) tz w = parse_concat (Suc n) tz w"
    if h: "fst (parse_concat (Suc n) tz w) \<noteq> Inl OutOfFuel" for tz w
  proof -
    obtain l tz1 w1 where t: "parse_repeat n tz w = (l, tz1, w1)" by (metis prod_cases3)
    have l: "l \<noteq> Inl OutOfFuel" using h t by (cases l) auto
    then have t': "parse_repeat (Suc n) tz w = (l, tz1, w1)" using Suc t by (metis fst_conv)
    have "parse_concat_loop (Suc n) left tz1 w1 = parse_concat_loop n left tz1 w1" if "l = Inr left" for left
    proof -
      have "fst (parse_concat_loop n left tz1 w1) \<noteq> Inl OutOfFuel" using h t that by simp
      then show ?thesis using Suc by blast
    qed
    then show ?thesis
      unfolding parse_concat.simps(2) [of "Suc n" tz w] parse_concat.simps(2) [of n tz w] t t'
      by (cases l) (simp_all del: parse_concat_loop.simps)
  qed
  have pp: "parse (Suc (Suc n)) tz w = parse (Suc n) tz w"
    if h: "fst (parse (Suc n) tz w) \<noteq> Inl OutOfFuel" for tz w
  proof -
    have "fst (parse_concat n tz w) \<noteq> Inl OutOfFuel" using h by simp
    then have "parse_concat (Suc n) tz w = parse_concat n tz w" using Suc by blast
    then show ?thesis by (simp del: parse_concat.simps)
  qed
  from tl rp lp cc pp show ?case by blast
qed

lemma parse_fuel_mono:
  assumes "fst (parse n tz w) \<noteq> Inl OutOfFuel"
  shows "parse (n + k) tz w = parse n tz w"
proof (induction k)
  case 0
  show ?case by simp
next
  case (Suc k)
  have "fst (parse (n + k) tz w) \<noteq> Inl OutOfFuel" using Suc assms by simp
  then have "parse (Suc (n + k)) tz w = parse (n + k) tz w"
    using parse_fuel_Suc_aux [of "n + k"] by blast
  with Suc show ?case by simp
qed

lemma parse_fuel_irrelevant:
  assumes "tokenizer_init t0 inp w = (rc, tz, w1)"
  shows "parse (parse_fuel inp + k) tz w1 = parse (parse_fuel inp) tz w1"
  using parse_fuel_mono [OF parse_fuel_enough [OF assms]] .

subsection \<open>The parser builds well-formed trees\<close>

lemma wf_result_simps [simp]:
  "wf_result (Inl e, tz', w')"
  "wf_result (Inr p, tz', w') = (ast_wf p \<and> tz_wf tz')"
  by (simp_all add: wf_result_def)

lemma parse_wf_aux:
  "(\<forall>tz w. tz_wf tz \<longrightarrow> wf_result (parse_toplevel n tz w)) \<and>
   (\<forall>tz w. tz_wf tz \<longrightarrow> wf_result (parse_repeat n tz w)) \<and>
   (\<forall>l tz w. tz_wf tz \<longrightarrow> ast_wf l \<longrightarrow> wf_result (parse_concat_loop n l tz w)) \<and>
   (\<forall>tz w. tz_wf tz \<longrightarrow> wf_result (parse_concat n tz w)) \<and>
   (\<forall>tz w. tz_wf tz \<longrightarrow> wf_result (parse n tz w))"
proof (induction n)
  case 0
  show ?case by simp
next
  case (Suc n)
  have tl: "wf_result (parse_toplevel (Suc n) tz w)" if wf: "tz_wf tz" for tz w
  proof -
    obtain rc tz1 w1 where c: "tokenizer_consume tz w = (rc, tz1, w1)" by (metis prod_cases3)
    have rc: "rc = 0" using c by (rule tokenizer_consume_rcD)
    have wf1: "tz_wf tz1" using wf c by (rule tokenizer_consume_wf)
    obtain r tz2 w2 where p: "parse n tz1 w1 = (r, tz2, w2)" by (metis prod_cases3)
    have r: "wf_result (r, tz2, w2)" using Suc wf1 p by metis
    obtain rc' tz3 w3 where c': "tokenizer_consume tz2 w2 = (rc', tz3, w3)" by (metis prod_cases3)
    have rc': "rc' = 0" using c' by (rule tokenizer_consume_rcD)
    have wf3: "tz_wf tz2 \<Longrightarrow> tz_wf tz3" using c' by (rule tokenizer_consume_wf [rotated])
    have lit: "tok_type (tz_cur tz) = TOK_STR \<Longrightarrow> buf_wf (buf_dup (tok_buf (tz_cur tz)))"
      using wf by (simp add: tz_wf_def tok_wf_def buf_dup_wf)
    show ?thesis
      using r wf1 wf3 lit by (cases r; cases "tok_type (tz_cur tz)")
        (auto simp: c rc p c' rc' Let_def fatal_def tokenizer_peek_def ast_new_lit_def)
  qed
  have rp: "wf_result (parse_repeat (Suc n) tz w)" if wf: "tz_wf tz" for tz w
  proof -
    obtain l tz1 w1 where t: "parse_toplevel n tz w = (l, tz1, w1)" by (metis prod_cases3)
    have l: "wf_result (l, tz1, w1)" using Suc wf t by metis
    obtain rc tz2 w2 where c: "tokenizer_consume tz1 w1 = (rc, tz2, w2)" by (metis prod_cases3)
    have rc: "rc = 0" using c by (rule tokenizer_consume_rcD)
    have wf2: "tz_wf tz1 \<Longrightarrow> tz_wf tz2" using c by (rule tokenizer_consume_wf [rotated])
    obtain r tz3 w3 where p: "(if tok_type (tokenizer_peeknext tz2) = TOK_OP \<and> tok_op (tokenizer_peeknext tz2) = CHR ''^''
                       then parse_repeat n tz2 w2 else parse_toplevel n tz2 w2) = (r, tz3, w3)"
      by (metis prod_cases3)
    have r: "tz_wf tz2 \<Longrightarrow> wf_result (r, tz3, w3)" using Suc p by (metis (full_types))
    show ?thesis
      using l r wf2 by (cases l; cases r)
        (auto simp: t c rc p Let_def fatal_def ast_new_binop_def)
  qed
  have lp: "wf_result (parse_concat_loop (Suc n) l tz w)" if wf: "tz_wf tz" "ast_wf l" for l tz w
  proof -
    obtain rc tz1 w1 where c: "tokenizer_consume tz w = (rc, tz1, w1)" by (metis prod_cases3)
    have rc: "rc = 0" using c by (rule tokenizer_consume_rcD)
    have wf1: "tz_wf tz1" using wf(1) c by (rule tokenizer_consume_wf)
    obtain r tz2 w2 where p: "parse_repeat n tz1 w1 = (r, tz2, w2)" by (metis prod_cases3)
    have r: "wf_result (r, tz2, w2)" using Suc wf1 p by metis
    have rest: "tz_wf tz2 \<Longrightarrow> ast_wf l' \<Longrightarrow> wf_result (parse_concat_loop n l' tz2 w')" for l' w'
      using Suc by blast
    show ?thesis
      using r rest wf by (cases r)
        (auto simp: c rc p Let_def fatal_def ast_new_binop_def)
  qed
  have cc: "wf_result (parse_concat (Suc n) tz w)" if wf: "tz_wf tz" for tz w
  proof -
    obtain l tz1 w1 where t: "parse_repeat n tz w = (l, tz1, w1)" by (metis prod_cases3)
    have l: "wf_result (l, tz1, w1)" using Suc wf t by metis
    have rest: "tz_wf tz1 \<Longrightarrow> ast_wf l' \<Longrightarrow> wf_result (parse_concat_loop n l' tz1 w1)" for l'
      using Suc by blast
    show ?thesis using l rest by (cases l) (auto simp: t)
  qed
  have pp: "wf_result (parse (Suc n) tz w)" if wf: "tz_wf tz" for tz w
    using Suc wf by simp
  from tl rp lp cc pp show ?case by blast
qed

lemma parse_wf:
  assumes "tokenizer_init tz0 inp w = (rc, tz, w1)" "parse n tz w1 = (Inr p, tz', w')"
  shows "ast_wf p"
  using parse_wf_aux [of n] tokenizer_init_wf [OF assms(1)] assms(2)
  by (metis wf_result_simps(2))

subsection \<open>Single steps of the parser\<close>

lemma parse_toplevel_STR:
  assumes "tok_type (tz_cur tz) = TOK_STR" "tokenizer_consume tz w = (rc, tz1, w1)"
  shows "parse_toplevel (Suc n) tz w =
           (Inr (LitNode (node_mem w1 (node_cnt w1)) (buf_dup (tok_buf (tz_cur tz)))), tz1,
            w1\<lparr>node_cnt := node_cnt w1 + 1\<rparr>)"
  using assms tokenizer_consume_rcD [OF assms(2)]
  by (simp add: tokenizer_peek_def ast_new_lit_def)



lemma parse_repeat_plain:
  assumes "parse_toplevel n tz w = (Inr left, tz1, w1)"
    and "\<not> (tok_type (tz_cur tz1) = TOK_OP \<and> tok_op (tz_cur tz1) = CHR ''^'')"
  shows "parse_repeat (Suc n) tz w = (Inr left, tz1, w1)"
  using assms by (auto simp: tokenizer_peek_def Let_def)

lemma parse_concat_loop_stop:
  assumes "\<not> (tok_type (tz_cur tz) = TOK_OP \<and> tok_op (tz_cur tz) = CHR ''.'')"
  shows "parse_concat_loop (Suc n) left tz w = (Inr left, tz, w)"
  using assms by (auto simp: tokenizer_peek_def Let_def)

lemma parse_concat_step:
  assumes "parse_repeat n tz w = (Inr left, tz1, w1)"
  shows "parse_concat (Suc n) tz w = parse_concat_loop n left tz1 w1"
  using assms by simp


subsection \<open>The driver\<close>

lemma eval_fuel: "eval ok a \<noteq> Inl OutOfFuel"
proof (induction a)
  case (LitNode t b)
  show ?case by simp
next
  case (BinNode t l r)
  then show ?case by (auto simp: buf_repeat_def split: sum.splits)
qed

lemma main_returns: "fst (main t0 inp w) \<noteq> Inl OutOfFuel"
proof -
  obtain rc tz w1 where i: "tokenizer_init t0 inp w = (rc, tz, w1)" by (metis prod_cases3)
  have rc: "rc = 0" using tokenizer_init_rc [of t0 inp w] i by simp
  obtain r tz2 w2 where p: "parse (parse_fuel inp) tz w1 = (r, tz2, w2)" by (metis prod_cases3)
  have r: "r \<noteq> Inl OutOfFuel" using parse_fuel_enough [OF i] p by simp
  show ?thesis
  proof (cases r)
    case (Inl e)
    with r i rc p show ?thesis by (simp add: main_def)
  next
    case (Inr a)
    with i rc p eval_fuel [of _ a] show ?thesis
      by (auto simp: main_def ast_print_def Let_def split: sum.splits option.splits
               dest: ast_print_inner_error ast_free_error)
  qed
qed



subsection \<open>Running the program on a given input\<close>

lemmas fuel_numeral =
  parse_toplevel.simps(2) [of "pred_numeral k", folded numeral_eq_Suc]
  parse_repeat.simps(2) [of "pred_numeral k", folded numeral_eq_Suc]
  parse_concat_loop.simps(2) [of "pred_numeral k", folded numeral_eq_Suc]
  parse_concat.simps(2) [of "pred_numeral k", folded numeral_eq_Suc]
  parse.simps(2) [of "pred_numeral k", folded numeral_eq_Suc]
  for k

lemmas weak_congs =
  prod.case_cong_weak sum.case_cong_weak toktype_t.case_cong_weak option.case_cong_weak

lemma replicate_numeral: "replicate (numeral k) x = x # replicate (pred_numeral k) x"
  by (simp add: numeral_eq_Suc)

lemmas run_defs = Let_def replicate_numeral process_def main_def parse_fuel_def tokenizer_init_def
  tokenizer_consume_def tokenizer_peek_def tokenizer_peeknext_def tok_free_def fatal_def
  ast_new_lit_def ast_new_binop_def ast_print_def print_lev_world printf_def buf_print_world
  bytes_def buf_dup_def buf_concat_def memcpy_def malloc_def realloc_def isdigit_def err_def
  fuel_numeral

lemmas eval_defs = buf_repeat_def buf_repeat_loop.simps buf_asulong_def char_int_def grant_all_def

text \<open>Two runs with zeroed node blocks: a concatenation and a repetition.\<close>

lemma scenario_runs:
  "process tz ''12.34'' (fresh_world EX_LIT)
     = Some (0, ''Binop: .'' @ [CHR 0x0A] @ ''|   Left:'' @ [CHR 0x0A] @ ''|   |   String literal:12'' @ [CHR 0x0A]
                @ ''|   Right:'' @ [CHR 0x0A] @ ''|   |   String literal:34'' @ [CHR 0x0A]
                @ ''1234'' @ [CHR 0x0A], [])"
  "process tz ''12^3'' (fresh_world EX_LIT)
     = Some (0, ''Binop: ^'' @ [CHR 0x0A] @ ''|   Left:'' @ [CHR 0x0A] @ ''|   |   String literal:12'' @ [CHR 0x0A]
                @ ''|   Right:'' @ [CHR 0x0A] @ ''|   |   String literal:3'' @ [CHR 0x0A]
                @ ''121212'' @ [CHR 0x0A], [])"
  by (simp_all add: run_defs eval_defs fresh_world_def cong: weak_congs)

subsection \<open>A literal as the whole input\<close>

lemma literal_parse:
  assumes "s \<noteq> []" "list_all isdigit s"
  shows "\<exists>tz b tz'. tokenizer_init t0 s w = (0, tz, w)
           \<and> parse (parse_fuel s) tz w
               = (Inr (LitNode (node_mem w (node_cnt w)) b), tz', w\<lparr>node_cnt := node_cnt w + 1\<rparr>)
           \<and> bytes b = s \<and> buf_wf b"
proof -
  from assms obtain c cs where s: "s = c # cs" and c: "isdigit c" and cs: "list_all isdigit cs"
    by (cases s) auto
  have tw: "takeWhile isdigit cs = cs" "dropWhile isdigit cs = []"
    using cs by (simp_all add: list_all_iff)
  obtain rc tok rest w1 where a: "next_tok (tz_cur t0) (c # cs) w = (rc, tok, rest, w1)"
    by (metis prod_cases4)
  have rc: "rc = 0" using next_tok_rc [of "tz_cur t0" "c # cs" w] a by simp
  from next_tok_digits [OF c a] tw
  have tok: "tok_type tok = TOK_STR" "bytes (tok_buf tok) = s" "rest = []" "buf_wf (tok_buf tok)" "w1 = w"
    by (simp_all add: s)
  let ?nx = "(tz_next t0)\<lparr>tok_type := TOK_EOF\<rparr>"
  let ?tz = "t0\<lparr>tz_in := [], tz_cur := tok, tz_next := ?nx\<rparr>"
  have init: "tokenizer_init t0 s w = (0, ?tz, w)"
    using a rc tok(3,5) by (simp add: tokenizer_init_def s)
  let ?tz1 = "?tz\<lparr>tz_cur := ?nx, tz_next := ?nx\<rparr>"
  have cons: "tokenizer_consume ?tz w = (0, ?tz1, w)"
    by (simp add: tokenizer_consume_def tok_free_def)
  obtain k where k: "parse_fuel s = Suc (Suc (Suc (Suc k)))"
    by (simp add: parse_fuel_def numeral_eq_Suc)
  let ?node = "LitNode (node_mem w (node_cnt w)) (buf_dup (tok_buf tok))"
  let ?w' = "w\<lparr>node_cnt := node_cnt w + 1\<rparr>"
  have 1: "parse_toplevel (Suc k) ?tz w = (Inr ?node, ?tz1, ?w')"
    using parse_toplevel_STR [OF _ cons, of k] tok(1) by simp
  have 2: "parse_repeat (Suc (Suc k)) ?tz w = (Inr ?node, ?tz1, ?w')"
    by (rule parse_repeat_plain [OF 1]) simp
  have 3: "parse_concat_loop (Suc (Suc k)) ?node ?tz1 ?w' = (Inr ?node, ?tz1, ?w')"
    by (rule parse_concat_loop_stop) simp
  have 4: "parse (parse_fuel s) ?tz w = (Inr ?node, ?tz1, ?w')"
    unfolding k parse.simps parse_concat_step [OF 2] by (rule 3)
  show ?thesis
    using init 4 buf_dup_wf [OF tok(4)] tok(2) by blast
qed

lemma literal_roundtrip:
  assumes "s \<noteq> []" "list_all isdigit s" "node_mem w (node_cnt w) = EX_LIT"
  shows "process t0 s w
           = Some (0, w_stdout w @ ''String literal:'' @ s @ [CHR 0x0A] @ s @ [CHR 0x0A], w_stderr w)"
proof -
  from literal_parse [OF assms(1,2), of t0 w] obtain tz b tz' where
    i: "tokenizer_init t0 s w = (0, tz, w)"
    and p: "parse (parse_fuel s) tz w = (Inr (LitNode (node_mem w (node_cnt w)) b), tz', w\<lparr>node_cnt := node_cnt w + 1\<rparr>)"
    and b: "bytes b = s" "buf_wf b" by blast
  have d: "bytes (buf_dup b) = s" using buf_dup_wf [OF b(2)] b(1) by simp
  show ?thesis
    by (simp add: process_def main_def i p assms(3) ast_print_def print_lev_world buf_print_world
          printf_def b d)
qed

lemma literal_value:
  assumes "s \<noteq> []" "list_all isdigit s" "node_mem w (node_cnt w) = EX_LIT"
    and "tokenizer_init t0 s w = (rc, tz, w1)" "parse (parse_fuel s) tz w1 = (Inr p, tz', w')"
  shows "eval_bytes ok p = Inr s"
proof -
  from literal_parse [OF assms(1,2), of t0 w] assms(4,5) obtain b where
    "p = LitNode (node_mem w (node_cnt w)) b" "bytes b = s" "buf_wf b"
    by auto
  then show ?thesis
    using buf_dup_wf [of b] by (simp add: assms(3) eval_bytes_def)
qed

text \<open>
  Claim C1 asks that a digit string \<open>s\<close> as the whole input parse and evaluate to
  \<open>s\<close>. That holds when the block of the literal node comes with the tag \<open>EX_LIT\<close>
  (lemmas \<open>literal_value\<close> and \<open>literal_roundtrip\<close>) and fails otherwise, since \<open>ast_new_lit\<close> leaves the
  tag as it finds it: with blocks that hold 7 there, the input \<open>1\<close> prints an unknown
  node and the run ends in the evaluator's fatal error.
\<close>

theorem literal_tag_failure:
  "process tz_init ''1'' (fresh_world 7)
     = Some (1, ''<Unknown node>'' @ [CHR 0x0A], ''Attempt to evaluate unknown node'' @ [CHR 0x0A])"
  by (simp add: run_defs fresh_world_def tz_init_def tok_init_def cong: weak_congs)

subsection \<open>The input \<open>1^2^2\<close>\<close>

text \<open>
  After the first \<open>^\<close> is consumed the token after the next one is \<open>^\<close> again, so
  the right operand is parsed by \<open>parse_repeat\<close>: the tree is a repetition whose right
  child is a repetition. The tags of the three literal nodes are those of their blocks.
\<close>

lemma chain_parse:
  "\<exists>tz tz' w'. tokenizer_init t0 ''1^2^2'' w = (0, tz, w)
     \<and> parse (parse_fuel ''1^2^2'') tz w
         = (Inr (BinNode EX_REPEAT
                   (LitNode (node_mem w (node_cnt w)) \<lparr>str = ''1'', len = 1\<rparr>)
                   (BinNode EX_REPEAT
                      (LitNode (node_mem w (node_cnt w + 1)) \<lparr>str = ''2'', len = 1\<rparr>)
                      (LitNode (node_mem w (node_cnt w + 2)) \<lparr>str = ''2'', len = 1\<rparr>))),
            tz', w')"
  by (simp add: run_defs cong: weak_congs)

lemma chain_eval:
  "eval_bytes grant_all (BinNode EX_REPEAT
                   (LitNode EX_LIT \<lparr>str = ''1'', len = 1\<rparr>)
                   (BinNode EX_REPEAT
                      (LitNode EX_LIT \<lparr>str = ''2'', len = 1\<rparr>)
                      (LitNode EX_LIT \<lparr>str = ''2'', len = 1\<rparr>)))
   = Inr ''1111111111111111111111''"
proof -
  let ?one = "\<lparr>str = ''1'', len = 1\<rparr>" and ?two = "\<lparr>str = ''2'', len = 1\<rparr>"
  have d: "buf_dup ?one = ?one" "buf_dup ?two = ?two"
    by (simp_all add: buf_dup_def memcpy_def malloc_def)
  have n2: "unat (buf_asulong ?two :: 64 word) = 2"
    by (simp add: buf_asulong_def char_int_def)
  have r2: "buf_repeat grant_all ?two 2 = Inr \<lparr>str = ''22'', len = 2\<rparr>"
    using buf_repeat_ok [of ?two 2 grant_all] by (simp add: buf_wf_def bytes_def replicate_numeral grant_all_def)
  have inner: "eval grant_all (BinNode EX_REPEAT (LitNode EX_LIT ?two) (LitNode EX_LIT ?two))
                = Inr \<lparr>str = ''22'', len = 2\<rparr>"
    by (simp add: d [simplified] n2 [simplified] r2 [simplified])
  have n22: "unat (buf_asulong \<lparr>str = ''22'', len = 2\<rparr> :: 64 word) = 22"
    by (simp add: buf_asulong_def char_int_def)
  have r22: "buf_repeat grant_all ?one 22 = Inr \<lparr>str = ''1111111111111111111111'', len = 22\<rparr>"
    using buf_repeat_ok [of ?one 22 grant_all] by (simp add: buf_wf_def bytes_def replicate_numeral grant_all_def)
  have "eval grant_all (BinNode EX_REPEAT (LitNode EX_LIT ?one)
               (BinNode EX_REPEAT (LitNode EX_LIT ?two) (LitNode EX_LIT ?two)))
        = Inr \<lparr>str = ''1111111111111111111111'', len = 22\<rparr>"
    unfolding eval.simps(2) [of _ _ "LitNode EX_LIT ?one"] inner
    by (simp add: d [simplified] n22 [simplified] r22 [simplified])
  then show ?thesis by (simp add: eval_bytes_def bytes_def)
qed

text \<open>
  Claim C4 asks that \<open>1^2^2\<close> parse to \<open>Repeat(Literal 1, Repeat(Literal 2, Literal 2))\<close>
  and evaluate to 22 copies of \<open>1\<close>. The shape is the one of \<open>chain_parse\<close>, and with
  the tag \<open>EX_LIT\<close> on the three literal nodes the value is as claimed
  (\<open>chain_eval\<close>); the tags are never written, and with blocks that hold 7 there the run
  prints three unknown nodes and ends in the evaluator's fatal error.
\<close>

theorem chain_tag_failure:
  "process tz_init ''1^2^2'' (fresh_world 7)
     = Some (1, ''Binop: ^'' @ [CHR 0x0A] @ ''|   Left:'' @ [CHR 0x0A] @ ''|   |   <Unknown node>'' @ [CHR 0x0A]
                @ ''|   Right:'' @ [CHR 0x0A] @ ''|   |   Binop: ^'' @ [CHR 0x0A]
                @ ''|   |   |   Left:'' @ [CHR 0x0A] @ ''|   |   |   |   <Unknown node>'' @ [CHR 0x0A]
                @ ''|   |   |   Right:'' @ [CHR 0x0A] @ ''|   |   |   |   <Unknown node>'' @ [CHR 0x0A],
             ''Attempt to evaluate unknown node'' @ [CHR 0x0A])"
  by (simp add: run_defs fresh_world_def tz_init_def tok_init_def cong: weak_congs)

subsection \<open>The tokenizer delivers the tokens of the input\<close>

lemma token_at_simps [simp]:
  "token_at (x # xs) 0 = x" "token_at (x # xs) (Suc k) = token_at xs k" "token_at [] k = EndToken"
  by (simp_all add: token_at_def)







lemma quiet_node_cnt [simp]: "quiet w (w1\<lparr>node_cnt := n\<rparr>) = quiet w w1"
  by (simp add: quiet_def)







subsection \<open>A larger depth bound, and errors of operands\<close>














subsection \<open>The parser against the grammar\<close>






subsection \<open>Every input starts with an expression or meets a violation\<close>





subsection \<open>Concatenation in the input\<close>



text \<open>
  For \<open>1.2\<close> that node stands over the two literal nodes, whose tags are those of their
  blocks. With zeroed node blocks the value is \<open>12\<close>, and the two groupings of
  \<open>1.2.3\<close> give different trees with the same value. With blocks that hold 7 the
  literal nodes are unknown nodes and the run ends in the evaluator's fatal error: the
  tag is never written by \<open>ast_new_lit\<close> (claims C1 and C6).
\<close>

lemma concat_parse:
  "\<exists>tz tz' w'. tokenizer_init t0 ''1.2'' w = (0, tz, w)
     \<and> parse (parse_fuel ''1.2'') tz w
         = (Inr (BinNode EX_CONCAT
                   (LitNode (node_mem w (node_cnt w)) \<lparr>str = ''1'', len = 1\<rparr>)
                   (LitNode (node_mem w (node_cnt w + 1)) \<lparr>str = ''2'', len = 1\<rparr>)),
            tz', w')"
  by (simp add: run_defs cong: weak_congs)

lemma concat_runs:
  "process tz ''1.2'' (fresh_world EX_LIT)
     = Some (0, ''Binop: .'' @ [CHR 0x0A] @ ''|   Left:'' @ [CHR 0x0A] @ ''|   |   String literal:1'' @ [CHR 0x0A]
                @ ''|   Right:'' @ [CHR 0x0A] @ ''|   |   String literal:2'' @ [CHR 0x0A]
                @ ''12'' @ [CHR 0x0A], [])"
  "process tz ''(1.2).3'' (fresh_world EX_LIT)
     = Some (0, ''Binop: .'' @ [CHR 0x0A] @ ''|   Left:'' @ [CHR 0x0A] @ ''|   |   Binop: .'' @ [CHR 0x0A]
                @ ''|   |   |   Left:'' @ [CHR 0x0A] @ ''|   |   |   |   String literal:1'' @ [CHR 0x0A]
                @ ''|   |   |   Right:'' @ [CHR 0x0A] @ ''|   |   |   |   String literal:2'' @ [CHR 0x0A]
                @ ''|   Right:'' @ [CHR 0x0A] @ ''|   |   String literal:3'' @ [CHR 0x0A]
                @ ''123'' @ [CHR 0x0A], [])"
  "process tz ''1.(2.3)'' (fresh_world EX_LIT)
     = Some (0, ''Binop: .'' @ [CHR 0x0A] @ ''|   Left:'' @ [CHR 0x0A] @ ''|   |   String literal:1'' @ [CHR 0x0A]
                @ ''|   Right:'' @ [CHR 0x0A] @ ''|   |   Binop: .'' @ [CHR 0x0A]
                @ ''|   |   |   Left:'' @ [CHR 0x0A] @ ''|   |   |   |   String literal:2'' @ [CHR 0x0A]
                @ ''|   |   |   Right:'' @ [CHR 0x0A] @ ''|   |   |   |   String literal:3'' @ [CHR 0x0A]
                @ ''123'' @ [CHR 0x0A], [])"
  by (simp_all add: run_defs eval_defs fresh_world_def cong: weak_congs)

lemma concat_tag_failure:
  "process tz_init ''1.2'' (fresh_world 7)
     = Some (1, ''Binop: .'' @ [CHR 0x0A] @ ''|   Left:'' @ [CHR 0x0A] @ ''|   |   <Unknown node>'' @ [CHR 0x0A]
                @ ''|   Right:'' @ [CHR 0x0A] @ ''|   |   <Unknown node>'' @ [CHR 0x0A],
             ''Attempt to evaluate unknown node'' @ [CHR 0x0A])"
  by (simp add: run_defs fresh_world_def tz_init_def tok_init_def cong: weak_congs)






subsection \<open>Violations of the grammar\<close>













end
